theory Spec2Isabelle
  imports Main "HOL-Library.Word"
begin

unbundle bit_operations_syntax

section \<open>Bytes, buffers and undefined behaviour\<close>

text \<open>
  The program is C. A buffer (\<^verbatim>\<open>unsigned char[]\<close>) is the list of its bytes, and its
  length is the size of the array. A read or write outside the array, and a read through
  a null pointer, is undefined behaviour in C; the model returns it as a value
  (\<open>Inl\<close> of a \<open>fault\<close>), so every function says where the source leaves the array.
\<close>

type_synonym byte = "8 word"

datatype fault = OutOfBounds | NullPointer

definition rd :: "byte list \<Rightarrow> nat \<Rightarrow> fault + byte" where
  "rd buf i = (if i < length buf then Inr (buf ! i) else Inl OutOfBounds)"

section \<open>Frame codec\<close>

text \<open>
  The loop shared by \<^verbatim>\<open>check_receive_buffer\<close> and \<^verbatim>\<open>prepare_command_buffer\<close>:
  \<^verbatim>\<open>for (int i = 2; i <= length; i++) checksum += buffer[i];\<close>
  started at \<open>i\<close> with the sum so far. The sum stays far below the range of \<^verbatim>\<open>int\<close>
  (at most 65534 bytes of at most 255), so it is a natural number.
\<close>

function checksum_loop :: "byte list \<Rightarrow> nat \<Rightarrow> nat \<Rightarrow> nat \<Rightarrow> fault + nat" where
  "checksum_loop buffer i len checksum =
     (if i \<le> len
      then (case rd buffer i of
              Inl f \<Rightarrow> Inl f
            | Inr b \<Rightarrow> checksum_loop buffer (Suc i) len (checksum + unat b))
      else Inr checksum)"
  by pat_completeness auto
termination
  by (relation "measure (\<lambda>(buffer, i, len, checksum). Suc len - i)") auto

declare checksum_loop.simps [simp del]

text \<open>The return codes of \<^verbatim>\<open>check_receive_buffer\<close> (0, -1, -2, -3 in the source).\<close>

datatype rx_status = RECEIVE_BUFFER_OK | INVALID_HEADER | INVALID_CHECKSUM | INVALID_LENGTH

text \<open>
  \<^verbatim>\<open>check_receive_buffer\<close>: the header test short-circuits (\<^verbatim>\<open>||\<close>), the length is read
  big-endian from offsets 3 and 4, the bytes at offsets 2..length are summed and the sum
  modulo 256 is compared with the byte at offset length + 1. The function never returns
  \<open>INVALID_LENGTH\<close>.
\<close>

definition frame_length :: "byte list \<Rightarrow> nat" where
  "frame_length receive_buffer = unat (receive_buffer ! 3) * 256 + unat (receive_buffer ! 4)"

definition check_receive_buffer :: "byte list \<Rightarrow> fault + rx_status" where
  "check_receive_buffer receive_buffer =
     (case rd receive_buffer 0 of Inl f \<Rightarrow> Inl f | Inr b0 \<Rightarrow>
      if b0 \<noteq> 0xFF then Inr INVALID_HEADER else
      case rd receive_buffer 1 of Inl f \<Rightarrow> Inl f | Inr b1 \<Rightarrow>
      if b1 \<noteq> 0xFF then Inr INVALID_HEADER else
      case rd receive_buffer 3 of Inl f \<Rightarrow> Inl f | Inr b3 \<Rightarrow>
      case rd receive_buffer 4 of Inl f \<Rightarrow> Inl f | Inr b4 \<Rightarrow>
      let len = unat b3 * 256 + unat b4 in
      case checksum_loop receive_buffer 2 len 0 of Inl f \<Rightarrow> Inl f | Inr checksum \<Rightarrow>
      case rd receive_buffer (len + 1) of Inl f \<Rightarrow> Inl f | Inr c \<Rightarrow>
      if checksum mod 256 \<noteq> unat c then Inr INVALID_CHECKSUM
      else Inr RECEIVE_BUFFER_OK)"

text \<open>
  \<^verbatim>\<open>memcpy(&dst[at], src, n)\<close> with \<open>src\<close> a pointer that may be null
  (\<open>None\<close>); \<open>Some p\<close> is a pointer to the array \<open>p\<close>.
\<close>

definition memcpy_at :: "byte list \<Rightarrow> nat \<Rightarrow> byte list option \<Rightarrow> nat \<Rightarrow> fault + byte list" where
  "memcpy_at dst at src n =
     (case src of
        None \<Rightarrow> Inl NullPointer
      | Some p \<Rightarrow>
          if length p < n \<or> length dst < at + n then Inl OutOfBounds
          else Inr (take at dst @ take n p @ drop (at + n) dst))"

text \<open>
  \<^verbatim>\<open>prepare_command_buffer(command_buffer, cmd, payload, length)\<close>. The result is the
  returned \<^verbatim>\<open>int\<close> and the command buffer as the call leaves it. The second guard is
  the source's: it returns -1 when \<open>length > 0\<close> and the payload pointer is \<^emph>\<open>not\<close>
  null. \<open>length\<close> is an \<^verbatim>\<open>unsigned int\<close>; every value from 252 on takes the first
  return.
\<close>

definition prepare_command_buffer ::
    "byte list \<Rightarrow> byte \<Rightarrow> byte list option \<Rightarrow> nat \<Rightarrow> fault + (int \<times> byte list)" where
  "prepare_command_buffer command_buffer cmd payload len =
     (if len \<ge> 0xFF - 3 then Inr (- 1, command_buffer)
      else if len > 0 \<and> payload \<noteq> None then Inr (- 1, command_buffer)
      else if length command_buffer < 5 + len then Inl OutOfBounds
      else
        let cb = command_buffer[0 := 0xFF, 1 := 0xFF, 2 := cmd, 3 := of_nat (3 + len)] in
        case (if len \<noteq> 0 then memcpy_at cb 4 payload len else Inr cb) of
          Inl f \<Rightarrow> Inl f
        | Inr cb' \<Rightarrow>
            (case checksum_loop cb' 2 (3 + len) 0 of
               Inl f \<Rightarrow> Inl f
             | Inr checksum \<Rightarrow>
                 Inr (5 + int len, cb'[3 + len + 1 := 0xFF AND of_nat (checksum mod 256)])))"

section \<open>Printing values\<close>

text \<open>
  C strings are \<open>string\<close>s without the terminating NUL; a \<^verbatim>\<open>char\<close> array is the list of
  its cells, NUL included.
\<close>

definition NUL :: char where
  "NUL = CHR 0x00"

definition DQUOTE :: char where
  "DQUOTE = CHR 0x22"

definition NEWLINE :: char where
  "NEWLINE = CHR 0x0A"

definition digit_char :: "nat \<Rightarrow> char" where
  "digit_char d = ''0123456789'' ! d"

fun decimal :: "nat \<Rightarrow> string" where
  "decimal n = (if n < 10 then [digit_char n] else decimal (n div 10) @ [digit_char (n mod 10)])"

declare decimal.simps [simp del]

text \<open>\<^verbatim>\<open>snprintf(payload, sizeof(payload), "%d", x)\<close>; at most 11 characters, so never cut.\<close>

definition snprintf_d :: "int \<Rightarrow> string" where
  "snprintf_d x = (if x < 0 then CHR ''-'' # decimal (nat (- x)) else decimal (nat x))"

text \<open>
  \<^verbatim>\<open>snprintf(payload, sizeof(payload), "%.1f", tmpInt / 10.0)\<close>. The quotient is the
  double nearest to \<open>tmpInt / 10\<close>, and \<^verbatim>\<open>%.1f\<close> prints the decimal with one
  fractional digit nearest to that double; for \<open>\<bar>tmpInt\<bar> < 2 ^ 31\<close> the double is
  within 0.000001 of \<open>tmpInt / 10\<close> and half a unit of the last printed digit
  is \<open>0.05\<close>, so the printed text is the sign, \<open>\<bar>tmpInt\<bar> div 10\<close>, a point and
  \<open>\<bar>tmpInt\<bar> mod 10\<close>. The floating-point step is modelled by that integer result.
\<close>

definition snprintf_1f_div10 :: "int \<Rightarrow> string" where
  "snprintf_1f_div10 tmpInt =
     (if tmpInt < 0 then ''-'' else '''') @ decimal (nat \<bar>tmpInt\<bar> div 10) @ ''.'' @
     [digit_char (nat \<bar>tmpInt\<bar> mod 10)]"

text \<open>
  \<^verbatim>\<open>snprintf(payload, sizeof(payload), "%.2f", buf[3] * 0.02)\<close> for a byte \<open>b\<close>: the
  product is within 0.00000000000001 of \<open>2 * b / 100\<close>, so \<^verbatim>\<open>%.2f\<close> prints
  \<open>2 * b\<close> hundredths.
\<close>

definition snprintf_2f_times_002 :: "nat \<Rightarrow> string" where
  "snprintf_2f_times_002 b =
     decimal (2 * b div 100) @ ''.'' @ [digit_char (2 * b div 10 mod 10), digit_char (2 * b mod 10)]"

text \<open>
  An \<^verbatim>\<open>int\<close> of 32 bits: the value a sum or shift has after wrap-around. (The source
  shifts a signed \<^verbatim>\<open>int\<close>; where the mathematical result leaves the range C leaves
  the behaviour undefined, and the compilers the program is built with wrap.)
\<close>

definition int32 :: "int \<Rightarrow> int" where
  "int32 x = sint (word_of_int x :: 32 word)"

text \<open>
  \<^verbatim>\<open>strncpy(dst, src, n)\<close> into an array of at least \<open>n\<close> cells: the first \<open>n\<close>
  characters of \<open>src\<close>, padded with NUL up to \<open>n\<close>; no NUL is written when \<open>src\<close> has
  \<open>n\<close> characters or more. The result is the first \<open>n\<close> cells of \<open>dst\<close>.
\<close>

definition strncpy :: "string \<Rightarrow> nat \<Rightarrow> char list" where
  "strncpy src n = take n src @ replicate (n - length src) NUL"

text \<open>
  Reading a \<^verbatim>\<open>char\<close> array as a C string (\<^verbatim>\<open>%s\<close>, \<^verbatim>\<open>strlen\<close>): the characters
  before the first NUL. An array without a NUL is read past its end.
\<close>

definition cstring :: "char list \<Rightarrow> fault + string" where
  "cstring cells = (if NUL \<in> set cells then Inr (takeWhile (\<lambda>c. c \<noteq> NUL) cells) else Inl OutOfBounds)"

text \<open>
  \<^verbatim>\<open>strrchr(s, c)\<close>: the suffix of \<open>s\<close> that starts at the last \<open>c\<close>, or the null
  pointer.
\<close>

fun strrchr :: "string \<Rightarrow> char \<Rightarrow> string option" where
  "strrchr [] c = None"
| "strrchr (x # xs) c =
     (case strrchr xs c of
        Some r \<Rightarrow> Some r
      | None \<Rightarrow> if x = c then Some (x # xs) else None)"

text \<open>\<^verbatim>\<open>strcat(dst, src)\<close> into an array of \<open>cap\<close> cells (the NUL needs one).\<close>

definition strcat :: "nat \<Rightarrow> string \<Rightarrow> string \<Rightarrow> fault + string" where
  "strcat cap dst src = (if length dst + length src < cap then Inr (dst @ src) else Inl OutOfBounds)"

section \<open>Tag registry\<close>

datatype TAG_PROCESSING_TYPE =
    TAG_TYPE_BYTE_LEAVE_ALONE
  | TAG_TYPE_SHORT_LEAVE_ALONE
  | TAG_TYPE_3_BYTES_LEAVE_ALONE
  | TAG_TYPE_INT_LEAVE_ALONE
  | TAG_TYPE_SHORT_DIVIDE_BY_10_UNSIGNED
  | TAG_TYPE_SHORT_DIVIDE_BY_10_SIGNED
  | TAG_TYPE_3_BYTES_TEMP_AND_BATT
  | TAG_TYPE_3_BYTES_TIME
  | TAG_TYPE_6_BYTES_TIME
  | TAG_TYPE_16_BYTES_BITMASK
  | TAG_TYPE_16_BYTES_CO2
  | TAG_TYPE_20_BYTES_PIEZO_GAIN
  | TAG_TYPE_PM25_AQI

fun tagTypeDataLength :: "TAG_PROCESSING_TYPE \<Rightarrow> int" where
  "tagTypeDataLength TAG_TYPE_BYTE_LEAVE_ALONE = 1"
| "tagTypeDataLength TAG_TYPE_SHORT_LEAVE_ALONE = 2"
| "tagTypeDataLength TAG_TYPE_SHORT_DIVIDE_BY_10_UNSIGNED = 2"
| "tagTypeDataLength TAG_TYPE_SHORT_DIVIDE_BY_10_SIGNED = 2"
| "tagTypeDataLength TAG_TYPE_3_BYTES_LEAVE_ALONE = 3"
| "tagTypeDataLength TAG_TYPE_3_BYTES_TEMP_AND_BATT = 3"
| "tagTypeDataLength TAG_TYPE_3_BYTES_TIME = 3"
| "tagTypeDataLength TAG_TYPE_INT_LEAVE_ALONE = 4"
| "tagTypeDataLength TAG_TYPE_6_BYTES_TIME = 6"
| "tagTypeDataLength TAG_TYPE_16_BYTES_BITMASK = 16"
| "tagTypeDataLength TAG_TYPE_16_BYTES_CO2 = 16"
| "tagTypeDataLength TAG_TYPE_20_BYTES_PIEZO_GAIN = 20"
| "tagTypeDataLength TAG_TYPE_PM25_AQI = 0"

text \<open>
  \<^verbatim>\<open>TagSpec\<close>: the tag id, its decoding, its topic, and the observation cached for it
  (\<^verbatim>\<open>char lastMessage[MQTT_MESSAGE_MAXLEN]\<close>, an array of 32 cells, and the time of the
  last update).
\<close>

record TagSpec =
  tag :: byte
  type :: TAG_PROCESSING_TYPE
  topic :: string
  lastMessage :: "char list"
  lastMessageTimestamp :: int

definition MQTT_MESSAGE_MAXLEN :: nat where
  "MQTT_MESSAGE_MAXLEN = 32"

definition MESSAGE_EXPIRATION_SECONDS :: int where
  "MESSAGE_EXPIRATION_SECONDS = 60"

text \<open>
  One initialiser of \<^verbatim>\<open>tagData[]\<close>: the fields it does not name are zero. The tag ids
  are the \<^verbatim>\<open>ITEM_*\<close> constants of \<^verbatim>\<open>ecowitt.h\<close>, in the order of the source's table.
\<close>

definition tag_entry :: "byte \<Rightarrow> TAG_PROCESSING_TYPE \<Rightarrow> string \<Rightarrow> TagSpec" where
  "tag_entry t ty tp =
     \<lparr>tag = t, type = ty, topic = tp,
      lastMessage = replicate MQTT_MESSAGE_MAXLEN NUL, lastMessageTimestamp = 0\<rparr>"

definition tagData_init :: "TagSpec list" where
  "tagData_init = [
      tag_entry 0x01 TAG_TYPE_SHORT_DIVIDE_BY_10_SIGNED ''temperature/indoors'',
      tag_entry 0x02 TAG_TYPE_SHORT_DIVIDE_BY_10_SIGNED ''temperature/outdoors'',
      tag_entry 0x03 TAG_TYPE_SHORT_DIVIDE_BY_10_SIGNED ''dew_point'',
      tag_entry 0x04 TAG_TYPE_SHORT_DIVIDE_BY_10_SIGNED ''wind_chill'',
      tag_entry 0x05 TAG_TYPE_SHORT_DIVIDE_BY_10_SIGNED ''heat_index'',
      tag_entry 0x06 TAG_TYPE_BYTE_LEAVE_ALONE ''humidity/indoors'',
      tag_entry 0x07 TAG_TYPE_BYTE_LEAVE_ALONE ''humidity/outdoors'',
      tag_entry 0x08 TAG_TYPE_SHORT_DIVIDE_BY_10_UNSIGNED ''barometric/absolute'',
      tag_entry 0x09 TAG_TYPE_SHORT_DIVIDE_BY_10_UNSIGNED ''barometric/relative'',
      tag_entry 0x0A TAG_TYPE_SHORT_LEAVE_ALONE ''wind/direction'',
      tag_entry 0x0B TAG_TYPE_SHORT_LEAVE_ALONE ''wind/speed'',
      tag_entry 0x0C TAG_TYPE_SHORT_LEAVE_ALONE ''wind/gust_speed'',
      tag_entry 0x0D TAG_TYPE_SHORT_LEAVE_ALONE ''rain/event'',
      tag_entry 0x0E TAG_TYPE_SHORT_LEAVE_ALONE ''rain/rate'',
      tag_entry 0x0F TAG_TYPE_SHORT_LEAVE_ALONE ''rain/hour'',
      tag_entry 0x10 TAG_TYPE_SHORT_LEAVE_ALONE ''rain/day'',
      tag_entry 0x11 TAG_TYPE_SHORT_LEAVE_ALONE ''rain/week'',
      tag_entry 0x12 TAG_TYPE_SHORT_LEAVE_ALONE ''rain/month'',
      tag_entry 0x13 TAG_TYPE_SHORT_LEAVE_ALONE ''rain/year'',
      tag_entry 0x14 TAG_TYPE_SHORT_LEAVE_ALONE ''rain/totals'',
      tag_entry 0x15 TAG_TYPE_INT_LEAVE_ALONE ''light'',
      tag_entry 0x16 TAG_TYPE_SHORT_LEAVE_ALONE ''uv/intensity'',
      tag_entry 0x17 TAG_TYPE_BYTE_LEAVE_ALONE ''uv/index'',
      tag_entry 0x18 TAG_TYPE_6_BYTES_TIME ''date_and_time'',
      tag_entry 0x19 TAG_TYPE_SHORT_LEAVE_ALONE ''wind/day_max'',
      tag_entry 0x1A TAG_TYPE_SHORT_DIVIDE_BY_10_SIGNED ''temperature/th_1'',
      tag_entry 0x1B TAG_TYPE_SHORT_DIVIDE_BY_10_SIGNED ''temperature/th_2'',
      tag_entry 0x1C TAG_TYPE_SHORT_DIVIDE_BY_10_SIGNED ''temperature/th_3'',
      tag_entry 0x1D TAG_TYPE_SHORT_DIVIDE_BY_10_SIGNED ''temperature/th_4'',
      tag_entry 0x1E TAG_TYPE_SHORT_DIVIDE_BY_10_SIGNED ''temperature/th_5'',
      tag_entry 0x1F TAG_TYPE_SHORT_DIVIDE_BY_10_SIGNED ''temperature/th_6'',
      tag_entry 0x20 TAG_TYPE_SHORT_DIVIDE_BY_10_SIGNED ''temperature/th_7'',
      tag_entry 0x21 TAG_TYPE_SHORT_DIVIDE_BY_10_SIGNED ''temperature/th_8'',
      tag_entry 0x22 TAG_TYPE_BYTE_LEAVE_ALONE ''humidity/th_1'',
      tag_entry 0x23 TAG_TYPE_BYTE_LEAVE_ALONE ''humidity/th_2'',
      tag_entry 0x24 TAG_TYPE_BYTE_LEAVE_ALONE ''humidity/th_3'',
      tag_entry 0x25 TAG_TYPE_BYTE_LEAVE_ALONE ''humidity/th_4'',
      tag_entry 0x26 TAG_TYPE_BYTE_LEAVE_ALONE ''humidity/th_5'',
      tag_entry 0x27 TAG_TYPE_BYTE_LEAVE_ALONE ''humidity/th_6'',
      tag_entry 0x28 TAG_TYPE_BYTE_LEAVE_ALONE ''humidity/th_7'',
      tag_entry 0x29 TAG_TYPE_BYTE_LEAVE_ALONE ''humidity/th_8'',
      tag_entry 0x2A TAG_TYPE_SHORT_LEAVE_ALONE ''air_quality'',
      tag_entry 0x2B TAG_TYPE_SHORT_DIVIDE_BY_10_SIGNED ''temperature/soil_1'',
      tag_entry 0x2C TAG_TYPE_BYTE_LEAVE_ALONE ''moisture/soil_1'',
      tag_entry 0x2D TAG_TYPE_SHORT_DIVIDE_BY_10_SIGNED ''temperature/soil_2'',
      tag_entry 0x2E TAG_TYPE_BYTE_LEAVE_ALONE ''moisture/soil_2'',
      tag_entry 0x2F TAG_TYPE_SHORT_DIVIDE_BY_10_SIGNED ''temperature/soil_3'',
      tag_entry 0x30 TAG_TYPE_BYTE_LEAVE_ALONE ''moisture/soil_3'',
      tag_entry 0x31 TAG_TYPE_SHORT_DIVIDE_BY_10_SIGNED ''temperature/soil_4'',
      tag_entry 0x32 TAG_TYPE_BYTE_LEAVE_ALONE ''moisture/soil_4'',
      tag_entry 0x33 TAG_TYPE_SHORT_DIVIDE_BY_10_SIGNED ''temperature/soil_5'',
      tag_entry 0x34 TAG_TYPE_BYTE_LEAVE_ALONE ''moisture/soil_5'',
      tag_entry 0x35 TAG_TYPE_SHORT_DIVIDE_BY_10_SIGNED ''temperature/soil_6'',
      tag_entry 0x36 TAG_TYPE_BYTE_LEAVE_ALONE ''moisture/soil_6'',
      tag_entry 0x37 TAG_TYPE_SHORT_DIVIDE_BY_10_SIGNED ''temperature/soil_7'',
      tag_entry 0x38 TAG_TYPE_BYTE_LEAVE_ALONE ''moisture/soil_7'',
      tag_entry 0x39 TAG_TYPE_SHORT_DIVIDE_BY_10_SIGNED ''temperature/soil_8'',
      tag_entry 0x3A TAG_TYPE_BYTE_LEAVE_ALONE ''moisture/soil_8'',
      tag_entry 0x3B TAG_TYPE_SHORT_DIVIDE_BY_10_SIGNED ''temperature/soil_9'',
      tag_entry 0x3C TAG_TYPE_BYTE_LEAVE_ALONE ''moisture/soil_9'',
      tag_entry 0x3D TAG_TYPE_SHORT_DIVIDE_BY_10_SIGNED ''temperature/soil_10'',
      tag_entry 0x3E TAG_TYPE_BYTE_LEAVE_ALONE ''moisture/soil_10'',
      tag_entry 0x3F TAG_TYPE_SHORT_DIVIDE_BY_10_SIGNED ''temperature/soil_11'',
      tag_entry 0x40 TAG_TYPE_BYTE_LEAVE_ALONE ''moisture/soil_11'',
      tag_entry 0x41 TAG_TYPE_SHORT_DIVIDE_BY_10_SIGNED ''temperature/soil_12'',
      tag_entry 0x42 TAG_TYPE_BYTE_LEAVE_ALONE ''moisture/soil_12'',
      tag_entry 0x43 TAG_TYPE_SHORT_DIVIDE_BY_10_SIGNED ''temperature/soil_13'',
      tag_entry 0x44 TAG_TYPE_BYTE_LEAVE_ALONE ''moisture/soil_13'',
      tag_entry 0x45 TAG_TYPE_SHORT_DIVIDE_BY_10_SIGNED ''temperature/soil_14'',
      tag_entry 0x46 TAG_TYPE_BYTE_LEAVE_ALONE ''moisture/soil_14'',
      tag_entry 0x47 TAG_TYPE_SHORT_DIVIDE_BY_10_SIGNED ''temperature/soil_15'',
      tag_entry 0x48 TAG_TYPE_BYTE_LEAVE_ALONE ''moisture/soil_15'',
      tag_entry 0x49 TAG_TYPE_SHORT_DIVIDE_BY_10_SIGNED ''temperature/soil_16'',
      tag_entry 0x4A TAG_TYPE_BYTE_LEAVE_ALONE ''moisture/soil_16'',
      tag_entry 0x4C TAG_TYPE_16_BYTES_BITMASK ''all_sensor_low_battery'',
      tag_entry 0x4D TAG_TYPE_SHORT_LEAVE_ALONE ''pm25/ch1'',
      tag_entry 0x4E TAG_TYPE_SHORT_LEAVE_ALONE ''pm25/ch2'',
      tag_entry 0x4F TAG_TYPE_SHORT_LEAVE_ALONE ''pm25/ch3'',
      tag_entry 0x50 TAG_TYPE_SHORT_LEAVE_ALONE ''pm25/ch4'',
      tag_entry 0x51 TAG_TYPE_SHORT_LEAVE_ALONE ''aqs/2'',
      tag_entry 0x52 TAG_TYPE_SHORT_LEAVE_ALONE ''aqs/3'',
      tag_entry 0x53 TAG_TYPE_SHORT_LEAVE_ALONE ''aqs/4'',
      tag_entry 0x58 TAG_TYPE_BYTE_LEAVE_ALONE ''leak/1'',
      tag_entry 0x59 TAG_TYPE_BYTE_LEAVE_ALONE ''leak/2'',
      tag_entry 0x5A TAG_TYPE_BYTE_LEAVE_ALONE ''leak/3'',
      tag_entry 0x5B TAG_TYPE_BYTE_LEAVE_ALONE ''leak/4'',
      tag_entry 0x60 TAG_TYPE_BYTE_LEAVE_ALONE ''lightning/distance'',
      tag_entry 0x61 TAG_TYPE_INT_LEAVE_ALONE ''lightning/time'',
      tag_entry 0x62 TAG_TYPE_INT_LEAVE_ALONE ''lightning/day_counter'',
      tag_entry 0x63 TAG_TYPE_3_BYTES_TEMP_AND_BATT ''temperature/t1'',
      tag_entry 0x64 TAG_TYPE_3_BYTES_TEMP_AND_BATT ''temperature/t2'',
      tag_entry 0x65 TAG_TYPE_3_BYTES_TEMP_AND_BATT ''temperature/t3'',
      tag_entry 0x66 TAG_TYPE_3_BYTES_TEMP_AND_BATT ''temperature/t4'',
      tag_entry 0x67 TAG_TYPE_3_BYTES_TEMP_AND_BATT ''temperature/t5'',
      tag_entry 0x68 TAG_TYPE_3_BYTES_TEMP_AND_BATT ''temperature/t6'',
      tag_entry 0x69 TAG_TYPE_3_BYTES_TEMP_AND_BATT ''temperature/t7'',
      tag_entry 0x6A TAG_TYPE_3_BYTES_TEMP_AND_BATT ''temperature/t8'',
      tag_entry 0x70 TAG_TYPE_16_BYTES_CO2 ''co2'',
      tag_entry 0x71 TAG_TYPE_PM25_AQI ''aqi'',
      tag_entry 0x72 TAG_TYPE_BYTE_LEAVE_ALONE ''leaf_wetness/1'',
      tag_entry 0x73 TAG_TYPE_BYTE_LEAVE_ALONE ''leaf_wetness/2'',
      tag_entry 0x74 TAG_TYPE_BYTE_LEAVE_ALONE ''leaf_wetness/3'',
      tag_entry 0x75 TAG_TYPE_BYTE_LEAVE_ALONE ''leaf_wetness/4'',
      tag_entry 0x76 TAG_TYPE_BYTE_LEAVE_ALONE ''leaf_wetness/5'',
      tag_entry 0x77 TAG_TYPE_BYTE_LEAVE_ALONE ''leaf_wetness/6'',
      tag_entry 0x78 TAG_TYPE_BYTE_LEAVE_ALONE ''leaf_wetness/7'',
      tag_entry 0x79 TAG_TYPE_BYTE_LEAVE_ALONE ''leaf_wetness/8'',
      tag_entry 0x80 TAG_TYPE_SHORT_LEAVE_ALONE ''rain/piezo/rate'',
      tag_entry 0x81 TAG_TYPE_SHORT_LEAVE_ALONE ''rain/piezo/event'',
      tag_entry 0x82 TAG_TYPE_SHORT_LEAVE_ALONE ''rain/piezo/hourly'',
      tag_entry 0x83 TAG_TYPE_INT_LEAVE_ALONE ''rain/piezo/daily'',
      tag_entry 0x84 TAG_TYPE_INT_LEAVE_ALONE ''rain/piezo/weekly'',
      tag_entry 0x85 TAG_TYPE_INT_LEAVE_ALONE ''rain/piezo/monthly'',
      tag_entry 0x86 TAG_TYPE_INT_LEAVE_ALONE ''rain/piezo/yearly'',
      tag_entry 0x87 TAG_TYPE_20_BYTES_PIEZO_GAIN ''rain/piezo/gain'',
      tag_entry 0x88 TAG_TYPE_3_BYTES_TIME ''rain/rst/time''
    ]"

text \<open>
  \<^verbatim>\<open>tag_index\<close>: the loop runs from the last entry down to the first; \<open>Suc i\<close> entries
  are still to be looked at. \<open>None\<close> is the source's -1.
\<close>

fun tag_index_loop :: "TagSpec list \<Rightarrow> int \<Rightarrow> nat \<Rightarrow> nat option" where
  "tag_index_loop td t 0 = None"
| "tag_index_loop td t (Suc i) =
     (if t = uint (tag (td ! i)) then Some i else tag_index_loop td t i)"

definition tag_index :: "TagSpec list \<Rightarrow> int \<Rightarrow> nat option" where
  "tag_index td t = tag_index_loop td t (length td)"

section \<open>The program's state\<close>

text \<open>
  The globals the decoder writes, and what it hands to its collaborators: the messages
  given to \<^verbatim>\<open>mqtt_publish\<close> (topic suffix and payload, in order; the broker client and
  the base topic it prefixes are outside the model) and the lines written to
  \<^verbatim>\<open>stderr\<close>.
\<close>

record world =
  tagData :: "TagSpec list"
  data_buffer :: "byte list"
  data_buffer_len :: nat
  data_buffer_last_update :: int
  published :: "(string \<times> string) list"
  stderr_lines :: "string list"

definition world_init :: world where
  "world_init =
     \<lparr>tagData = tagData_init, data_buffer = replicate 1024 0, data_buffer_len = 0,
      data_buffer_last_update = 0, published = [], stderr_lines = []\<rparr>"

definition mqtt_publish :: "string \<Rightarrow> string \<Rightarrow> world \<Rightarrow> world" where
  "mqtt_publish topic_suffix payload st =
     st\<lparr>published := published st @ [(topic_suffix, payload)]\<rparr>"

definition fprintf_stderr :: "string \<Rightarrow> world \<Rightarrow> world" where
  "fprintf_stderr line st = st\<lparr>stderr_lines := stderr_lines st @ [line]\<rparr>"

section \<open>Value decoder\<close>

text \<open>
  A pointer into the receive buffer (\<^verbatim>\<open>unsigned char *buf\<close>) is the list of the bytes
  from the pointer to the end of the array: \<^verbatim>\<open>buf[k]\<close> is \<open>buf ! k\<close> and is inside
  the array when \<open>k < length buf\<close>; \<^verbatim>\<open>buf += n\<close> is \<open>drop n buf\<close>.
\<close>

text \<open>
  The two loops of the bitmask case, on the local array \<^verbatim>\<open>char payload[256]\<close>:
  \<^verbatim>\<open>payload[(8*i) + (7 - b)] = (buf[1 + i] & (1 << b)) ? '1' : '0'\<close>.
\<close>

definition bitmask_bits :: "byte list \<Rightarrow> nat \<Rightarrow> char list \<Rightarrow> char list" where
  "bitmask_bits buf i payload =
     fold (\<lambda>b p. p[(8 * i) + (7 - b) :=
                     (if (buf ! (1 + i)) AND (push_bit b 1) \<noteq> 0 then CHR ''1'' else CHR ''0'')])
          [0..<8] payload"

definition bitmask_bytes :: "byte list \<Rightarrow> char list \<Rightarrow> char list" where
  "bitmask_bytes buf payload = fold (bitmask_bits buf) [0..<16] payload"

text \<open>
  The \<^verbatim>\<open>switch\<close> of \<^verbatim>\<open>process_tag\<close>. Its result is \<open>None\<close> where the source returns
  -1 from inside the switch (\<^verbatim>\<open>TAG_TYPE_PM25_AQI\<close>), and otherwise the C string left in
  \<^verbatim>\<open>payload\<close> with the state (the battery message of \<^verbatim>\<open>TAG_TYPE_3_BYTES_TEMP_AND_BATT\<close>
  is published inside the switch). Each case first reads its bytes; a read outside the
  array is a fault. \<^verbatim>\<open>batttopic\<close> has 256 cells. The cells of \<^verbatim>\<open>payload\<close> above the
  terminating NUL are never read; the model starts the array filled with NUL.
\<close>

definition decode_switch ::
    "TAG_PROCESSING_TYPE \<Rightarrow> string \<Rightarrow> byte list \<Rightarrow> world \<Rightarrow> fault + (string \<times> world) option" where
  "decode_switch tagType subtopic buf st =
     (case tagType of
        TAG_TYPE_BYTE_LEAVE_ALONE \<Rightarrow>
          if 1 < length buf then Inr (Some (snprintf_d (uint (buf ! 1)), st))
          else Inl OutOfBounds
      | TAG_TYPE_SHORT_LEAVE_ALONE \<Rightarrow>
          if 2 < length buf then
            let tmpInt = uint (buf ! 1);
                tmpInt = push_bit 8 tmpInt + uint (buf ! 2)
            in Inr (Some (snprintf_d tmpInt, st))
          else Inl OutOfBounds
      | TAG_TYPE_3_BYTES_LEAVE_ALONE \<Rightarrow>
          if 3 < length buf then
            let tmpInt = uint (buf ! 1);
                tmpInt = push_bit 8 tmpInt + uint (buf ! 2);
                tmpInt = push_bit 8 tmpInt + uint (buf ! 3)
            in Inr (Some (snprintf_d tmpInt, st))
          else Inl OutOfBounds
      | TAG_TYPE_INT_LEAVE_ALONE \<Rightarrow>
          if 4 < length buf then
            let tmpInt = uint (buf ! 1);
                tmpInt = push_bit 8 tmpInt + uint (buf ! 2);
                tmpInt = push_bit 8 tmpInt + uint (buf ! 3);
                tmpInt = int32 (push_bit 8 tmpInt + uint (buf ! 4))
            in Inr (Some (snprintf_d tmpInt, st))
          else Inl OutOfBounds
      | TAG_TYPE_SHORT_DIVIDE_BY_10_UNSIGNED \<Rightarrow>
          if 2 < length buf then
            let tmpInt = uint (buf ! 1);
                tmpInt = push_bit 8 tmpInt + uint (buf ! 2)
            in Inr (Some (snprintf_1f_div10 tmpInt, st))
          else Inl OutOfBounds
      | TAG_TYPE_SHORT_DIVIDE_BY_10_SIGNED \<Rightarrow>
          if 2 < length buf then
            let tmpInt = uint (buf ! 1);
                tmpInt = push_bit 8 tmpInt + uint (buf ! 2);
                tmpInt = (if (buf ! 1) AND 0x80 \<noteq> 0 then tmpInt - 0xFFFF else tmpInt)
            in Inr (Some (snprintf_1f_div10 tmpInt, st))
          else Inl OutOfBounds
      | TAG_TYPE_3_BYTES_TEMP_AND_BATT \<Rightarrow>
          if 2 < length buf then
            let tmpInt = uint (buf ! 1);
                tmpInt = push_bit 8 tmpInt + uint (buf ! 2);
                tmpInt = (if (buf ! 1) AND 0x80 \<noteq> 0 then tmpInt - 0xFFFF else tmpInt)
            in (case strrchr subtopic (CHR ''/'') of
                  None \<Rightarrow> Inl NullPointer
                | Some sensor \<Rightarrow>
                    (case strcat 256 ''battery'' sensor of
                       Inl f \<Rightarrow> Inl f
                     | Inr batttopic \<Rightarrow>
                         if 3 < length buf then
                           let st1 = mqtt_publish batttopic (snprintf_2f_times_002 (unat (buf ! 3))) st
                           in Inr (Some (snprintf_1f_div10 tmpInt, st1))
                         else Inl OutOfBounds))
          else Inl OutOfBounds
      | TAG_TYPE_3_BYTES_TIME \<Rightarrow> Inr (Some ('''', st))
      | TAG_TYPE_6_BYTES_TIME \<Rightarrow> Inr (Some ('''', st))
      | TAG_TYPE_16_BYTES_BITMASK \<Rightarrow>
          if 16 < length buf then
            let payload = bitmask_bytes buf (replicate 256 NUL);
                payload = payload[128 := NUL]
            in Inr (Some (takeWhile (\<lambda>c. c \<noteq> NUL) payload, st))
          else Inl OutOfBounds
      | TAG_TYPE_16_BYTES_CO2 \<Rightarrow> Inr (Some ('''', st))
      | TAG_TYPE_20_BYTES_PIEZO_GAIN \<Rightarrow> Inr (Some ('''', st))
      | TAG_TYPE_PM25_AQI \<Rightarrow> Inr None)"

text \<open>
  What \<^verbatim>\<open>process_tag\<close> does after the switch, at time \<open>now\<close> (the value
  \<^verbatim>\<open>time()\<close> returns): a payload that is not empty is published on the tag's topic and
  copied into the tag's observation with \<^verbatim>\<open>strncpy(..., MQTT_MESSAGE_MAXLEN)\<close>.
\<close>

definition publish_and_cache :: "nat \<Rightarrow> string \<Rightarrow> int \<Rightarrow> world \<Rightarrow> world" where
  "publish_and_cache ti payload now st =
     (if payload \<noteq> [] then
        let st1 = mqtt_publish (topic (tagData st ! ti)) payload st
        in st1\<lparr>tagData := (tagData st1)[ti := (tagData st1 ! ti)
                  \<lparr>lastMessage := strncpy payload MQTT_MESSAGE_MAXLEN,
                   lastMessageTimestamp := now\<rparr>]\<rparr>
      else fprintf_stderr ''No payload to publish'' st)"

text \<open>
  \<^verbatim>\<open>process_tag(buf, mosq)\<close>: the returned \<^verbatim>\<open>int\<close> and the state after the call.
\<close>

definition process_tag :: "byte list \<Rightarrow> int \<Rightarrow> world \<Rightarrow> fault + (int \<times> world)" where
  "process_tag buf now st =
     (case rd buf 0 of
        Inl f \<Rightarrow> Inl f
      | Inr b0 \<Rightarrow>
          (case tag_index (tagData st) (uint b0) of
             None \<Rightarrow> Inr (- 1, st)
           | Some ti \<Rightarrow>
               let subtopic = topic (tagData st ! ti);
                   tagType = type (tagData st ! ti);
                   len = tagTypeDataLength tagType
               in (case decode_switch tagType subtopic buf st of
                     Inl f \<Rightarrow> Inl f
                   | Inr None \<Rightarrow> Inr (- 1, st)
                   | Inr (Some (payload, st1)) \<Rightarrow>
                       Inr (1 + len, publish_and_cache ti payload now st1))))"

section \<open>Tag stream parser\<close>

text \<open>
  The \<^verbatim>\<open>while (readBytes < length)\<close> loop of \<^verbatim>\<open>parse_and_publish\<close>. It is defined
  without a termination argument: \<open>None\<close> would be a run that never ends.
\<close>

partial_function (option) parse_loop ::
    "byte list \<Rightarrow> int \<Rightarrow> int \<Rightarrow> int \<Rightarrow> world \<Rightarrow> (fault + world) option" where
  "parse_loop buf readBytes len now st =
     (if readBytes < len then
        (case process_tag buf now st of
           Inl f \<Rightarrow> Some (Inl f)
         | Inr (tagChunkSize, st') \<Rightarrow>
             if tagChunkSize > 0
             then parse_loop (drop (nat tagChunkSize) buf) (readBytes + tagChunkSize) len now st'
             else Some (Inr st'))
      else Some (Inr st))"

declare parse_loop.simps [code]

text \<open>
  \<^verbatim>\<open>parse_and_publish(buf, mosq)\<close> on the receive buffer: the header and the command
  are skipped, the length is read big-endian, \<open>length\<close> bytes from offset 5 are
  copied into \<^verbatim>\<open>data_buffer\<close>, and the loop starts at offset 5 with \<open>readBytes = 3\<close>.
\<close>

definition parse_and_publish :: "byte list \<Rightarrow> int \<Rightarrow> world \<Rightarrow> (fault + world) option" where
  "parse_and_publish receive_buffer now st =
     (case rd receive_buffer 3 of
        Inl f \<Rightarrow> Some (Inl f)
      | Inr hi \<Rightarrow>
          (case rd receive_buffer 4 of
             Inl f \<Rightarrow> Some (Inl f)
           | Inr lo \<Rightarrow>
               let len = push_bit 8 (unat hi) + unat lo;
                   buf = drop 5 receive_buffer
               in if length buf < len \<or> length (data_buffer st) < len then Some (Inl OutOfBounds)
                  else parse_loop buf 3 (int len) now
                         (st\<lparr>data_buffer := take len buf @ drop len (data_buffer st),
                             data_buffer_len := len,
                             data_buffer_last_update := now\<rparr>)))"

section \<open>Observation cache: the snapshot\<close>

text \<open>
  The loop of \<^verbatim>\<open>publish_json\<close>, from the last tag down to the first, with the local
  \<^verbatim>\<open>firstTopic\<close> and the text in \<^verbatim>\<open>json_buffer\<close> (1024 cells); each entry is first
  printed into \<^verbatim>\<open>strbuf\<close> (128 cells).
\<close>

definition sprintf_entry :: "string \<Rightarrow> string \<Rightarrow> fault + string" where
  "sprintf_entry tp msg =
     (let strbuf = [DQUOTE] @ tp @ [DQUOTE] @ '': '' @ [DQUOTE] @ msg @ [DQUOTE]
      in if length strbuf < 128 then Inr strbuf else Inl OutOfBounds)"

fun json_loop :: "TagSpec list \<Rightarrow> int \<Rightarrow> nat \<Rightarrow> bool \<times> string \<Rightarrow> fault + (bool \<times> string)" where
  "json_loop td now 0 acc = Inr acc"
| "json_loop td now (Suc ti) (firstTopic, json_buffer) =
     (if lastMessage (td ! ti) ! 0 \<noteq> NUL \<and>
         now - lastMessageTimestamp (td ! ti) \<le> MESSAGE_EXPIRATION_SECONDS
      then
        (case (if firstTopic then Inr json_buffer else strcat 1024 json_buffer [CHR '','', NEWLINE]) of
           Inl f \<Rightarrow> Inl f
         | Inr jb \<Rightarrow>
             (case cstring (lastMessage (td ! ti)) of
                Inl f \<Rightarrow> Inl f
              | Inr msg \<Rightarrow>
                  (case sprintf_entry (topic (td ! ti)) msg of
                     Inl f \<Rightarrow> Inl f
                   | Inr strbuf \<Rightarrow>
                       (case strcat 1024 jb strbuf of
                          Inl f \<Rightarrow> Inl f
                        | Inr jb' \<Rightarrow> json_loop td now ti (False, jb')))))
      else json_loop td now ti (firstTopic, json_buffer))"

definition publish_json :: "int \<Rightarrow> world \<Rightarrow> fault + world" where
  "publish_json now st =
     (case json_loop (tagData st) now (length (tagData st)) (True, [CHR ''{'', NEWLINE]) of
        Inl f \<Rightarrow> Inl f
      | Inr (firstTopic, json_buffer) \<Rightarrow>
          (case strcat 1024 json_buffer [NEWLINE, CHR ''}''] of
             Inl f \<Rightarrow> Inl f
           | Inr json \<Rightarrow>
               if firstTopic then Inr (fprintf_stderr ''No recent data to publish'' st)
               else Inr (mqtt_publish ''all_data/json'' json st)))"

section \<open>Notions used to state the properties\<close>

text \<open>
  A payload that is a sequence of whole tags: \<open>decode_chunks cs now st\<close> runs
  \<^verbatim>\<open>process_tag\<close> on each chunk of \<open>cs\<close> by itself, in order, and is \<open>Some\<close> of the
  final state when every chunk is a known tag followed by exactly the bytes of its
  width (\<^verbatim>\<open>process_tag\<close> returns the length of the chunk).
\<close>

fun decode_chunks :: "byte list list \<Rightarrow> int \<Rightarrow> world \<Rightarrow> world option" where
  "decode_chunks [] now st = Some st"
| "decode_chunks (c # cs) now st =
     (case process_tag c now st of
        Inl f \<Rightarrow> None
      | Inr (n, st') \<Rightarrow> if n = int (length c) then decode_chunks cs now st' else None)"

text \<open>
  The registry of a state is the one the program starts with: tag ids, decodings and
  topics are never written.
\<close>

definition registry :: "TagSpec list \<Rightarrow> (byte \<times> TAG_PROCESSING_TYPE \<times> string) list" where
  "registry td = map (\<lambda>e. (tag e, type e, topic e)) td"

text \<open>The final path segment of a topic: what follows its last \<open>/\<close>.\<close>

definition last_segment :: "string \<Rightarrow> string" where
  "last_segment s = rev (takeWhile (\<lambda>c. c \<noteq> CHR ''/'') (rev s))"

text \<open>
  The bits of a byte as characters, most significant first, and an observation that
  \<^verbatim>\<open>publish_json\<close> includes at time \<open>now\<close>.
\<close>

definition bits_msb_first :: "byte \<Rightarrow> string" where
  "bits_msb_first x = map (\<lambda>b. if bit x b then CHR ''1'' else CHR ''0'') [7, 6, 5, 4, 3, 2, 1, 0]"

definition fresh :: "int \<Rightarrow> TagSpec \<Rightarrow> bool" where
  "fresh now e = (lastMessage e ! 0 \<noteq> NUL \<and> now - lastMessageTimestamp e \<le> 60)"

text \<open>
  The text of a snapshot: one entry per observation, as \<^verbatim>\<open>publish_json\<close> prints it
  (the topic and the cached message, each in double quotes), entries after the first
  preceded by a comma and a newline.
\<close>

definition entry_text :: "TagSpec \<Rightarrow> string" where
  "entry_text e =
     [DQUOTE] @ topic e @ [DQUOTE] @ '': '' @ [DQUOTE] @
     takeWhile (\<lambda>c. c \<noteq> NUL) (lastMessage e) @ [DQUOTE]"

fun render_entries :: "bool \<Rightarrow> TagSpec list \<Rightarrow> string" where
  "render_entries firstTopic [] = []"
| "render_entries firstTopic (e # es) =
     (if firstTopic then [] else [CHR '','', NEWLINE]) @ entry_text e @ render_entries False es"

text \<open>
  A state used in examples: the initial state after an indoor temperature of 23.4 and
  an indoor humidity of 50 were decoded at time 1000.
\<close>

definition example_state :: world where
  "example_state =
     world_init
       \<lparr>tagData := (tagData_init
          [0 := (tagData_init ! 0)\<lparr>lastMessage := strncpy ''23.4'' 32, lastMessageTimestamp := 1000\<rparr>])
          [5 := (tagData_init ! 5)\<lparr>lastMessage := strncpy ''50'' 32, lastMessageTimestamp := 1000\<rparr>],
        published := [(''temperature/indoors'', ''23.4''), (''humidity/indoors'', ''50'')]\<rparr>"

definition example_json :: string where
  "example_json =
     [CHR ''{'', NEWLINE, DQUOTE] @ ''humidity/indoors'' @ [DQUOTE] @ '': '' @ [DQUOTE] @ ''50'' @
     [DQUOTE, CHR '','', NEWLINE, DQUOTE] @ ''temperature/indoors'' @ [DQUOTE] @ '': '' @ [DQUOTE] @
     ''23.4'' @ [DQUOTE, NEWLINE, CHR ''}'']"

text \<open>
  An observation whose entry \<^verbatim>\<open>publish_json\<close> can print inside its arrays: the cached
  message holds a NUL and the entry fits \<^verbatim>\<open>strbuf\<close>. The whole text of a snapshot.
\<close>

definition entry_fits :: "TagSpec \<Rightarrow> bool" where
  "entry_fits e = (NUL \<in> set (lastMessage e) \<and> length (entry_text e) < 128)"

definition snapshot_text :: "TagSpec list \<Rightarrow> string" where
  "snapshot_text es = [CHR ''{'', NEWLINE] @ render_entries True es @ [NEWLINE, CHR ''}'']"

text \<open>
  A reply of the gateway in the receive buffer of 1024 bytes: command 0x27, length 21,
  the low-battery tag 0x4C with 16 data bytes (bit 0 of the first set), the checksum
  0x89, and zeros after the frame.
\<close>

definition low_battery_frame :: "byte list" where
  "low_battery_frame =
     [0xFF, 0xFF, 0x27, 0x00, 0x15, 0x4C, 0x01] @ replicate 15 0 @ [0x89] @ replicate 1001 0"

section \<open>Properties of the frame codec\<close>

subsection \<open>The checksum loop and the validator in closed form\<close>

lemma checksum_loop_sum:
  "checksum_loop buffer i len acc =
     (if i \<le> len \<and> length buffer \<le> len then Inl OutOfBounds
      else Inr (acc + (\<Sum>k = i..<Suc len. unat (buffer ! k))))"
proof (induction buffer i len acc rule: checksum_loop.induct)
  case (1 buffer i len checksum)
  show ?case
  proof (cases "i \<le> len")
    case False
    then show ?thesis by (subst checksum_loop.simps) simp
  next
    case True
    show ?thesis
    proof (cases "i < length buffer")
      case False
      with True show ?thesis by (subst checksum_loop.simps) (simp add: rd_def)
    next
      case inb: True
      have "checksum_loop buffer i len checksum =
              checksum_loop buffer (Suc i) len (checksum + unat (buffer ! i))"
        using True inb by (subst checksum_loop.simps) (simp add: rd_def)
      also have "\<dots> = (if Suc i \<le> len \<and> length buffer \<le> len then Inl OutOfBounds
           else Inr (checksum + unat (buffer ! i) + (\<Sum>k = Suc i..<Suc len. unat (buffer ! k))))"
        using "1.IH" [OF True, of "buffer ! i"] inb by (simp add: rd_def)
      also have "\<dots> = (if i \<le> len \<and> length buffer \<le> len then Inl OutOfBounds
           else Inr (checksum + (\<Sum>k = i..<Suc len. unat (buffer ! k))))"
      proof -
        have "(\<Sum>k = i..<Suc len. unat (buffer ! k)) =
                unat (buffer ! i) + (\<Sum>k = Suc i..<Suc len. unat (buffer ! k))"
          by (rule sum.atLeast_Suc_lessThan) (use True in simp)
        moreover have "Suc i \<le> len \<and> length buffer \<le> len \<longleftrightarrow> i \<le> len \<and> length buffer \<le> len"
          using True inb by auto
        ultimately show ?thesis by (simp only: add.assoc)
      qed
      finally show ?thesis .
    qed
  qed
qed

lemma check_receive_buffer_eq:
  "check_receive_buffer rb =
     (if length rb = 0 then Inl OutOfBounds
      else if rb ! 0 \<noteq> 0xFF then Inr INVALID_HEADER
      else if length rb \<le> 1 then Inl OutOfBounds
      else if rb ! 1 \<noteq> 0xFF then Inr INVALID_HEADER
      else if length rb \<le> 4 \<or> length rb \<le> frame_length rb + 1 then Inl OutOfBounds
      else if (\<Sum>k = 2..<Suc (frame_length rb). unat (rb ! k)) mod 256
                \<noteq> unat (rb ! (frame_length rb + 1))
      then Inr INVALID_CHECKSUM
      else Inr RECEIVE_BUFFER_OK)"
  by (auto simp: check_receive_buffer_def rd_def frame_length_def Let_def checksum_loop_sum)

lemma check_ok_facts:
  assumes "check_receive_buffer rb = Inr RECEIVE_BUFFER_OK"
  shows "4 < length rb" "rb ! 0 = 0xFF" "rb ! 1 = 0xFF" "frame_length rb + 1 < length rb"
    "(\<Sum>k = 2..<Suc (frame_length rb). unat (rb ! k)) mod 256 = unat (rb ! (frame_length rb + 1))"
    "rb \<noteq> []"
  using assms unfolding check_receive_buffer_eq by (auto split: if_splits)

subsection \<open>Sums of bytes under an update\<close>

lemma sum_update_in:
  fixes xs :: "byte list"
  assumes "lo \<le> i" "i < hi" "i < length xs"
  shows "(\<Sum>k = lo..<hi. unat (xs[i := v] ! k)) + unat (xs ! i)
           = (\<Sum>k = lo..<hi. unat (xs ! k)) + unat v"
proof -
  have fin: "finite {lo..<hi}" and mem: "i \<in> {lo..<hi}" using assms by auto
  have a: "(\<Sum>k = lo..<hi. unat (xs[i := v] ! k))
          = unat (xs[i := v] ! i) + (\<Sum>k \<in> {lo..<hi} - {i}. unat (xs[i := v] ! k))"
    by (rule sum.remove [OF fin mem])
  have b: "(\<Sum>k = lo..<hi. unat (xs ! k))
          = unat (xs ! i) + (\<Sum>k \<in> {lo..<hi} - {i}. unat (xs ! k))"
    by (rule sum.remove [OF fin mem])
  have c: "(\<Sum>k \<in> {lo..<hi} - {i}. unat (xs[i := v] ! k)) = (\<Sum>k \<in> {lo..<hi} - {i}. unat (xs ! k))"
    by (rule sum.cong) auto
  show ?thesis using a b c assms by simp
qed

lemma sum_update_out:
  fixes xs :: "byte list"
  assumes "i < lo \<or> hi \<le> i"
  shows "(\<Sum>k = lo..<hi. unat (xs[i := v] ! k)) = (\<Sum>k = lo..<hi. unat (xs ! k))"
  by (rule sum.cong) (use assms in auto)

lemma byte_neq_mod:
  fixes a b :: byte
  assumes "a \<noteq> b" "s + unat a = t + unat b"
  shows "s mod 256 \<noteq> t mod 256"
proof
  assume e: "s mod 256 = t mod 256"
  have "word_of_nat (s + unat a) = (word_of_nat (t + unat b) :: byte)" using assms by simp
  moreover have "(word_of_nat s :: byte) = word_of_nat t"
    using e by (simp add: word_of_nat_eq_iff take_bit_eq_mod)
  ultimately have "a = b" by simp
  then show False using assms by simp
qed

lemma sum_2_3: "(\<Sum>k = 2..<4::nat. f k) = f 2 + (f 3 :: nat)"
proof -
  have "{2..<4} = {2, 3 :: nat}" by auto
  then show ?thesis by simp
qed

lemma byte_mask_mod: "(0xFF :: byte) AND of_nat (n mod 256) = of_nat n"
proof -
  have "(of_nat (n mod 256) :: byte) = of_nat n"
    by (simp add: word_of_nat_eq_iff take_bit_eq_mod)
  moreover have "(0xFF :: byte) AND w = w" for w
  proof -
    have "(0xFF :: byte) = - 1" by simp
    then show ?thesis by (simp only: word_bitwise_m1_simps)
  qed
  ultimately show ?thesis by simp
qed

subsection \<open>Building a command\<close>

lemma prepare_too_large:
  "252 \<le> len \<Longrightarrow> prepare_command_buffer cb cmd payload len = Inr (- 1, cb)"
  by (simp add: prepare_command_buffer_def)

lemma prepare_nonnull_payload:
  "prepare_command_buffer cb cmd (Some p) (Suc n) = Inr (- 1, cb)"
  by (simp add: prepare_command_buffer_def)

lemma prepare_null_payload:
  "0 < len \<Longrightarrow> len < 252 \<Longrightarrow> 5 + len \<le> length cb \<Longrightarrow>
     prepare_command_buffer cb cmd None len = Inl NullPointer"
  by (simp add: prepare_command_buffer_def memcpy_at_def)

lemma list5_update:
  assumes "5 \<le> length cb"
  shows "cb[0 := a, 1 := b, 2 := c, 3 := d, 4 := e] = [a, b, c, d, e] @ drop 5 cb"
proof -
  from assms have "Suc (Suc (Suc (Suc (Suc 0)))) \<le> length cb" by simp
  then obtain x0 x1 x2 x3 x4 r where r: "cb = x0 # x1 # x2 # x3 # x4 # r"
    by (auto simp: Suc_le_length_iff)
  show ?thesis by (subst (1 2) r) (simp add: eval_nat_numeral)
qed

lemma prepare_empty_payload:
  assumes "5 \<le> length cb"
  shows "prepare_command_buffer cb cmd payload 0 = Inr (5, [0xFF, 0xFF, cmd, 3, cmd + 3] @ drop 5 cb)"
proof -
  let ?cb = "cb[0 := 0xFF, 1 := 0xFF, 2 := cmd, 3 := 3]"
  have s: "checksum_loop ?cb 2 3 0 = Inr (unat cmd + 3)"
    using assms by (simp add: checksum_loop_sum sum_2_3)
  have w: "(0xFF :: byte) AND of_nat ((unat cmd + 3) mod 256) = cmd + 3"
    by (simp add: byte_mask_mod)
  show ?thesis
    using assms s w list5_update [OF assms, of "0xFF" "0xFF" cmd 3 "cmd + 3"]
    by (simp add: prepare_command_buffer_def)
qed

lemma command_frame_in_receive_buffer:
  "check_receive_buffer ([0xFF, 0xFF, 0x27, 0x03, 0x2A] @ replicate 1019 0) = Inr INVALID_CHECKSUM"
proof -
  let ?rb = "[0xFF, 0xFF, 0x27, 0x03, 0x2A] @ replicate 1019 (0 :: byte)"
  have fl: "frame_length ?rb = 810" by (simp add: frame_length_def)
  have "(\<Sum>k = 2..<811. unat (?rb ! k)) = (\<Sum>k = 2..<5. unat (?rb ! k)) + (\<Sum>k = 5..<811. unat (?rb ! k))"
    by (rule sum.atLeastLessThan_concat [symmetric]) simp_all
  moreover have "(\<Sum>k = 5..<811. unat (?rb ! k)) = 0"
    by (rule sum.neutral) (auto simp: nth_append)
  moreover have "{2..<5} = {2, 3, 4 :: nat}" by auto
  then have "(\<Sum>k = 2..<5. unat (?rb ! k)) = 84" by simp
  ultimately have s: "(\<Sum>k = 2..<811. unat (?rb ! k)) = 84" by simp
  have c: "?rb ! 811 = 0" by (simp add: nth_append)
  show ?thesis unfolding check_receive_buffer_eq fl using s c by simp
qed

lemma built_frame_sum:
  fixes cmd ck :: byte
  assumes "5 \<le> length cb" "5 \<le> n" "n \<le> length cb"
  shows "(\<Sum>k = 2..<n. unat (([0xFF, 0xFF, cmd, 3, ck] @ drop 5 cb) ! k))
           = unat cmd + 3 + unat ck + (\<Sum>k = 5..<n. unat (cb ! k))"
proof -
  let ?rb = "[0xFF, 0xFF, cmd, 3, ck] @ drop 5 cb"
  have "(\<Sum>k = 2..<n. unat (?rb ! k)) = (\<Sum>k = 2..<5. unat (?rb ! k)) + (\<Sum>k = 5..<n. unat (?rb ! k))"
    by (rule sum.atLeastLessThan_concat [symmetric]) (use assms in simp_all)
  moreover have "{2..<5} = {2, 3, 4 :: nat}" by auto
  then have "(\<Sum>k = 2..<5. unat (?rb ! k)) = unat cmd + 3 + unat ck" by simp
  moreover have "(\<Sum>k = 5..<n. unat (?rb ! k)) = (\<Sum>k = 5..<n. unat (cb ! k))"
  proof (rule sum.cong)
    fix k assume "k \<in> {5..<n}"
    then have k: "5 \<le> k" "k < length cb" using assms by auto
    have "?rb ! k = drop 5 cb ! (k - 5)" using k by (simp add: nth_append)
    also have "\<dots> = cb ! k" using k assms by simp
    finally show "unat (?rb ! k) = unat (cb ! k)" by simp
  qed simp
  ultimately show ?thesis by simp
qed

lemma built_frame_validation:
  fixes cmd ck :: byte
  assumes "5 \<le> length cb"
  shows "check_receive_buffer ([0xFF, 0xFF, cmd, 3, ck] @ drop 5 cb) =
           (if length cb \<le> 769 + unat ck then Inl OutOfBounds
            else if (unat cmd + 3 + unat ck + (\<Sum>k = 5..<769 + unat ck. unat (cb ! k))) mod 256
                      \<noteq> unat (cb ! (769 + unat ck))
            then Inr INVALID_CHECKSUM
            else Inr RECEIVE_BUFFER_OK)"
proof -
  let ?rb = "[0xFF, 0xFF, cmd, 3, ck] @ drop 5 cb"
  have fl: "frame_length ?rb = 768 + unat ck" by (simp add: frame_length_def)
  have len: "length ?rb = length cb" using assms by simp
  show ?thesis
  proof (cases "length cb \<le> 769 + unat ck")
    case True
    then show ?thesis unfolding check_receive_buffer_eq fl len using assms by auto
  next
    case False
    then have n: "769 + unat ck \<le> length cb" "5 \<le> 769 + unat ck" by simp_all
    have s: "(\<Sum>k = 2..<Suc (768 + unat ck). unat (?rb ! k))
               = unat cmd + 3 + unat ck + (\<Sum>k = 5..<769 + unat ck. unat (cb ! k))"
      using built_frame_sum [OF assms n(2) n(1), of cmd ck] by simp
    have c: "?rb ! (768 + unat ck + 1) = cb ! (769 + unat ck)"
    proof -
      have "?rb ! (768 + unat ck + 1) = drop 5 cb ! (764 + unat ck)" by (simp add: nth_append)
      also have "\<dots> = cb ! (769 + unat ck)" using assms False by simp
      finally show ?thesis .
    qed
    have ne: "cb \<noteq> []" using assms by auto
    show ?thesis unfolding check_receive_buffer_eq fl len s c using False assms ne by simp
  qed
qed

lemma zeros_sum: "n \<le> 1024 \<Longrightarrow> (\<Sum>k = 5..<n. unat (replicate 1024 (0 :: byte) ! k)) = 0"
  by (rule sum.neutral) auto

subsection \<open>Claim C1: building a command and validating it\<close>

text \<open>
  C1, as stated, fails. \<^verbatim>\<open>main\<close> builds its query with \<^verbatim>\<open>CMD_GW1000_LIVEDATA\<close> (0x27),
  a null payload and length 0, into a buffer of 260 bytes. The frame is
  \<open>FF FF 27 03 2A\<close>: a command carries its size in one byte. \<^verbatim>\<open>check_receive_buffer\<close>
  reads a length of two bytes at offsets 3 and 4, here \<open>0x032A = 810\<close>, and sums up to
  that offset: on the command buffer and on the frame alone it leaves the array, and
  when the frame is followed by zeros up to 1024 bytes (the size of the receive buffer)
  it answers \<open>INVALID_CHECKSUM\<close>.
\<close>

theorem C1_roundtrip_counterexample:
  "prepare_command_buffer (replicate 260 0) 0x27 None 0
      = Inr (5, [0xFF, 0xFF, 0x27, 0x03, 0x2A] @ replicate 255 0) \<and>
   check_receive_buffer ([0xFF, 0xFF, 0x27, 0x03, 0x2A] @ replicate 255 0) = Inl OutOfBounds \<and>
   check_receive_buffer [0xFF, 0xFF, 0x27, 0x03, 0x2A] = Inl OutOfBounds \<and>
   check_receive_buffer ([0xFF, 0xFF, 0x27, 0x03, 0x2A] @ replicate 1019 0) = Inr INVALID_CHECKSUM"
proof (intro conjI)
  show "prepare_command_buffer (replicate 260 0) 0x27 None 0
          = Inr (5, [0xFF, 0xFF, 0x27, 0x03, 0x2A] @ replicate 255 0)"
    by (simp add: prepare_empty_payload)
  show "check_receive_buffer ([0xFF, 0xFF, 0x27, 0x03, 0x2A] @ replicate 255 0) = Inl OutOfBounds"
    by (simp add: check_receive_buffer_eq frame_length_def)
  show "check_receive_buffer [0xFF, 0xFF, 0x27, 0x03, 0x2A] = Inl OutOfBounds"
    by (simp add: check_receive_buffer_eq frame_length_def)
  show "check_receive_buffer ([0xFF, 0xFF, 0x27, 0x03, 0x2A] @ replicate 1019 0)
          = Inr INVALID_CHECKSUM"
    by (rule command_frame_in_receive_buffer)
qed

text \<open>
  C1, amended: for every command id and every command buffer of at least 5 bytes,
  \<^verbatim>\<open>prepare_command_buffer\<close> with an empty payload returns 5 and leaves the frame
  \<open>FF FF cmd 03 ck\<close> at the start of the buffer, where \<open>ck = (cmd + 3) mod 256\<close> is the
  sum of the bytes at offsets 2 up to the one-byte size (3). \<^verbatim>\<open>check_receive_buffer\<close>
  reads the length \<open>768 + ck\<close> from that frame, so what it answers is decided by the
  bytes that follow the frame and not by the frame: in a buffer of at most
  \<open>769 + ck\<close> bytes it reads outside the array; in a longer one it adds the bytes
  at offsets 5 to \<open>768 + ck\<close> to \<open>cmd + 3 + ck\<close> and compares the sum modulo 256
  with the byte at offset \<open>769 + ck\<close>. The witness shows each answer: outside the
  array (command 0x27 in 260 bytes, command 0xFC in 1024 zeros), \<open>INVALID_CHECKSUM\<close>
  (0x27 in 1024 zeros) and \<open>RECEIVE_BUFFER_OK\<close> (0xFD in 1024 zeros, where the sum
  is 256).
\<close>

theorem C1_command_frame_empty_payload:
  assumes "5 \<le> length cb"
  shows "prepare_command_buffer cb cmd payload 0 = Inr (5, [0xFF, 0xFF, cmd, 3, cmd + 3] @ drop 5 cb) \<and>
         unat (cmd + 3) = (unat cmd + unat (3 :: byte)) mod 256 \<and>
         checksum_loop ([0xFF, 0xFF, cmd, 3, cmd + 3] @ drop 5 cb) 2 (unat (3 :: byte)) 0
           = Inr (unat cmd + unat (3 :: byte)) \<and>
         frame_length ([0xFF, 0xFF, cmd, 3, cmd + 3] @ drop 5 cb) = 768 + unat (cmd + 3) \<and>
         check_receive_buffer ([0xFF, 0xFF, cmd, 3, cmd + 3] @ drop 5 cb) =
           (if length cb \<le> 769 + unat (cmd + 3) then Inl OutOfBounds
            else if (unat cmd + 3 + unat (cmd + 3) +
                     (\<Sum>k = 5..<769 + unat (cmd + 3). unat (cb ! k))) mod 256
                      \<noteq> unat (cb ! (769 + unat (cmd + 3)))
            then Inr INVALID_CHECKSUM
            else Inr RECEIVE_BUFFER_OK)"
proof (intro conjI)
  show "prepare_command_buffer cb cmd payload 0 = Inr (5, [0xFF, 0xFF, cmd, 3, cmd + 3] @ drop 5 cb)"
    by (rule prepare_empty_payload [OF assms])
  show "unat (cmd + 3) = (unat cmd + unat (3 :: byte)) mod 256"
    by (simp add: unat_word_ariths)
  show "checksum_loop ([0xFF, 0xFF, cmd, 3, cmd + 3] @ drop 5 cb) 2 (unat (3 :: byte)) 0
           = Inr (unat cmd + unat (3 :: byte))"
    by (simp add: checksum_loop_sum sum_2_3)
  show "frame_length ([0xFF, 0xFF, cmd, 3, cmd + 3] @ drop 5 cb) = 768 + unat (cmd + 3)"
    by (simp add: frame_length_def)
  show "check_receive_buffer ([0xFF, 0xFF, cmd, 3, cmd + 3] @ drop 5 cb) =
           (if length cb \<le> 769 + unat (cmd + 3) then Inl OutOfBounds
            else if (unat cmd + 3 + unat (cmd + 3) +
                     (\<Sum>k = 5..<769 + unat (cmd + 3). unat (cb ! k))) mod 256
                      \<noteq> unat (cb ! (769 + unat (cmd + 3)))
            then Inr INVALID_CHECKSUM
            else Inr RECEIVE_BUFFER_OK)"
    by (rule built_frame_validation [OF assms])
qed

theorem C1_command_frame_empty_payload_witness:
  "5 \<le> length (replicate 260 (0 :: byte)) \<and>
   prepare_command_buffer (replicate 260 0) 0x27 None 0
      = Inr (5, [0xFF, 0xFF, 0x27, 0x03, 0x2A] @ replicate 255 0) \<and>
   check_receive_buffer ([0xFF, 0xFF, 0x27, 0x03, 0x2A] @ replicate 255 0) = Inl OutOfBounds \<and>
   prepare_command_buffer (replicate 1024 0) 0x27 None 0
      = Inr (5, [0xFF, 0xFF, 0x27, 0x03, 0x2A] @ replicate 1019 0) \<and>
   check_receive_buffer ([0xFF, 0xFF, 0x27, 0x03, 0x2A] @ replicate 1019 0) = Inr INVALID_CHECKSUM \<and>
   prepare_command_buffer (replicate 1024 0) 0xFD None 0
      = Inr (5, [0xFF, 0xFF, 0xFD, 0x03, 0x00] @ replicate 1019 0) \<and>
   check_receive_buffer ([0xFF, 0xFF, 0xFD, 0x03, 0x00] @ replicate 1019 0) = Inr RECEIVE_BUFFER_OK \<and>
   prepare_command_buffer (replicate 1024 0) 0xFC None 0
      = Inr (5, [0xFF, 0xFF, 0xFC, 0x03, 0xFF] @ replicate 1019 0) \<and>
   check_receive_buffer ([0xFF, 0xFF, 0xFC, 0x03, 0xFF] @ replicate 1019 0) = Inl OutOfBounds"
proof -
  have l: "5 \<le> length (replicate 260 (0 :: byte))" "5 \<le> length (replicate 1024 (0 :: byte))"
    by simp_all
  have z: "(\<Sum>k = 5..<811. unat (replicate 1024 (0 :: byte) ! k)) = 0"
    "(\<Sum>k = 5..<769. unat (replicate 1024 (0 :: byte) ! k)) = 0"
    by (rule zeros_sum, simp)+
  have a: "prepare_command_buffer (replicate 260 0) 0x27 None 0
      = Inr (5, [0xFF, 0xFF, 0x27, 0x03, 0x2A] @ replicate 255 0) \<and>
    check_receive_buffer ([0xFF, 0xFF, 0x27, 0x03, 0x2A] @ replicate 255 0) = Inl OutOfBounds"
    using C1_command_frame_empty_payload [OF l(1), of "0x27" None] by simp
  have b: "prepare_command_buffer (replicate 1024 0) 0x27 None 0
      = Inr (5, [0xFF, 0xFF, 0x27, 0x03, 0x2A] @ replicate 1019 0) \<and>
    check_receive_buffer ([0xFF, 0xFF, 0x27, 0x03, 0x2A] @ replicate 1019 0) = Inr INVALID_CHECKSUM"
    using C1_command_frame_empty_payload [OF l(2), of "0x27" None] z by simp
  have c: "prepare_command_buffer (replicate 1024 0) 0xFD None 0
      = Inr (5, [0xFF, 0xFF, 0xFD, 0x03, 0x00] @ replicate 1019 0) \<and>
    check_receive_buffer ([0xFF, 0xFF, 0xFD, 0x03, 0x00] @ replicate 1019 0) = Inr RECEIVE_BUFFER_OK"
  proof -
    have w: "(256 :: byte) = 0" by simp
    show ?thesis
      using C1_command_frame_empty_payload [OF l(2), of "0xFD" None] z by (simp add: w)
  qed
  have d: "prepare_command_buffer (replicate 1024 0) 0xFC None 0
      = Inr (5, [0xFF, 0xFF, 0xFC, 0x03, 0xFF] @ replicate 1019 0) \<and>
    check_receive_buffer ([0xFF, 0xFF, 0xFC, 0x03, 0xFF] @ replicate 1019 0) = Inl OutOfBounds"
    using C1_command_frame_empty_payload [OF l(2), of "0xFC" None] by simp
  show ?thesis using l(1) a b c d by blast
qed

subsection \<open>Claim C2: the size limit of a command\<close>

text \<open>
  C2: a payload of 252 bytes or more is refused (\<open>prepare_too_large\<close>), as the claim
  says. A payload of 251 bytes is refused too: the second guard of
  \<^verbatim>\<open>prepare_command_buffer\<close> returns -1 when the length is positive and the payload
  pointer is not null, under the message "payload pointer is null". At the input below
  (command 0x27, a payload of 251 zero bytes, a command buffer of 260 bytes) the source
  returns -1 and writes nothing; the claim asks for 256 and a frame.
\<close>

theorem C2_payload_251_rejected:
  "prepare_command_buffer (replicate 260 0) 0x27 (Some (replicate 251 0)) 251
     = Inr (- 1, replicate 260 0)"
  by (simp add: prepare_command_buffer_def)

subsection \<open>Claim C3: a corrupted byte\<close>

text \<open>
  C3, as stated, fails for the size bytes. The frame \<open>FF FF 27 00 06 06 32 65\<close> (indoor
  humidity 50) is accepted; with the low size byte changed from 06 to 05 the bytes at
  offsets 2..5 sum to \<open>0x32\<close>, which is the byte at offset 6, and the frame is
  accepted again.
\<close>

theorem C3_size_byte_corruption_accepted:
  "check_receive_buffer [0xFF, 0xFF, 0x27, 0x00, 0x06, 0x06, 0x32, 0x65] = Inr RECEIVE_BUFFER_OK \<and>
   check_receive_buffer ([0xFF, 0xFF, 0x27, 0x00, 0x06, 0x06, 0x32, 0x65][4 := 0x05])
     = Inr RECEIVE_BUFFER_OK"
  by code_simp

text \<open>
  C3, amended: in a buffer that \<^verbatim>\<open>check_receive_buffer\<close> accepts, a change of one
  header byte (offset 0 or 1) is answered with \<open>INVALID_HEADER\<close>, and a change of the
  command byte (offset 2), of a payload byte or of the checksum byte (offsets 5 to
  length + 1) with \<open>INVALID_CHECKSUM\<close>. Nothing is said of the two size bytes.
\<close>

theorem C3_single_byte_corruption_detected:
  assumes ok: "check_receive_buffer rb = Inr RECEIVE_BUFFER_OK"
    and i: "i < length rb" and v: "v \<noteq> rb ! i"
  shows "(i < 2 \<longrightarrow> check_receive_buffer (rb[i := v]) = Inr INVALID_HEADER) \<and>
         (i = 2 \<or> (5 \<le> i \<and> i \<le> frame_length rb + 1) \<longrightarrow>
            check_receive_buffer (rb[i := v]) = Inr INVALID_CHECKSUM)"
proof (intro conjI impI)
  note f = check_ok_facts [OF ok]
  assume "i < 2"
  then consider "i = 0" | "i = 1" by linarith
  then show "check_receive_buffer (rb[i := v]) = Inr INVALID_HEADER"
  proof cases
    case 1
    then show ?thesis using f v by (simp add: check_receive_buffer_eq)
  next
    case 2
    then show ?thesis using f v by (simp add: check_receive_buffer_eq)
  qed
next
  note f = check_ok_facts [OF ok]
  let ?len = "frame_length rb"
  let ?rb' = "rb[i := v]"
  assume r: "i = 2 \<or> (5 \<le> i \<and> i \<le> ?len + 1)"
  then have i34: "i \<noteq> 0" "i \<noteq> 1" "i \<noteq> 3" "i \<noteq> 4" by auto
  have len': "frame_length ?rb' = ?len" using i34 by (simp add: frame_length_def)
  have hdr: "?rb' ! 0 = 0xFF" "?rb' ! 1 = 0xFF" using i34 f by simp_all
  have len0: "?len \<noteq> 0"
  proof
    assume "?len = 0"
    then have "0 = unat (rb ! 1)" using f(5) by simp
    then show False using f(3) by simp
  qed
  have bad: "(\<Sum>k = 2..<Suc ?len. unat (?rb' ! k)) mod 256 \<noteq> unat (?rb' ! (?len + 1))"
  proof (cases "i \<le> ?len")
    case True
    then have in_range: "2 \<le> i" "i < Suc ?len" using r by auto
    have "(\<Sum>k = 2..<Suc ?len. unat (?rb' ! k)) + unat (rb ! i)
            = (\<Sum>k = 2..<Suc ?len. unat (rb ! k)) + unat v"
      by (rule sum_update_in [OF in_range i])
    then have "(\<Sum>k = 2..<Suc ?len. unat (?rb' ! k)) mod 256
                 \<noteq> (\<Sum>k = 2..<Suc ?len. unat (rb ! k)) mod 256"
      using byte_neq_mod [of "rb ! i" v] v by blast
    moreover have "?rb' ! (?len + 1) = rb ! (?len + 1)" using True by simp
    ultimately show ?thesis using f(5) by simp
  next
    case False
    then have e: "i = ?len + 1" using r len0 by auto
    have "(\<Sum>k = 2..<Suc ?len. unat (?rb' ! k)) = (\<Sum>k = 2..<Suc ?len. unat (rb ! k))"
      by (rule sum_update_out) (use e in simp)
    moreover have "?rb' ! (?len + 1) = v" using e i by simp
    moreover have "unat v \<noteq> unat (rb ! (?len + 1))" using v e by (simp add: word_unat_eq_iff)
    ultimately show ?thesis using f(5) by simp
  qed
  show "check_receive_buffer ?rb' = Inr INVALID_CHECKSUM"
    unfolding check_receive_buffer_eq [of ?rb'] len' using hdr f bad by simp
qed

theorem C3_single_byte_corruption_detected_witness:
  "check_receive_buffer ([0xFF, 0xFF, 0x27, 0x00, 0x06, 0x06, 0x32, 0x65][0 := 0x7F]) = Inr INVALID_HEADER \<and>
   check_receive_buffer ([0xFF, 0xFF, 0x27, 0x00, 0x06, 0x06, 0x32, 0x65][6 := 0x33]) = Inr INVALID_CHECKSUM"
proof -
  let ?rb = "[0xFF, 0xFF, 0x27, 0x00, 0x06, 0x06, 0x32, 0x65] :: byte list"
  have ok: "check_receive_buffer ?rb = Inr RECEIVE_BUFFER_OK" by code_simp
  have fl: "frame_length ?rb = 6" by (simp add: frame_length_def)
  have a: "check_receive_buffer (?rb[0 := 0x7F]) = Inr INVALID_HEADER"
    using C3_single_byte_corruption_detected [OF ok, of 0 "0x7F"] by simp
  have b: "check_receive_buffer (?rb[6 := 0x33]) = Inr INVALID_CHECKSUM"
    using C3_single_byte_corruption_detected [OF ok, of 6 "0x33"] fl by simp
  show ?thesis using a b by simp
qed

section \<open>Properties of the decoder and the parser\<close>

lemma tagTypeDataLength_range: "0 \<le> tagTypeDataLength ty" "tagTypeDataLength ty \<le> 20"
  by (cases ty; simp)+

lemma tagTypeDataLength_pos: "ty \<noteq> TAG_TYPE_PM25_AQI \<Longrightarrow> 1 \<le> tagTypeDataLength ty"
  by (cases ty) simp_all

lemma decode_switch_None:
  "decode_switch ty tp buf st = Inr None \<longleftrightarrow> ty = TAG_TYPE_PM25_AQI"
  by (cases ty) (auto simp: decode_switch_def Let_def strcat_def split: option.splits sum.splits)

lemma decode_switch_tagData:
  "decode_switch ty tp buf st = Inr (Some (payload, st1)) \<Longrightarrow>
     tagData st1 = tagData st \<and> stderr_lines st1 = stderr_lines st \<and>
     data_buffer st1 = data_buffer st \<and> data_buffer_len st1 = data_buffer_len st \<and>
     data_buffer_last_update st1 = data_buffer_last_update st"
  by (cases ty)
     (auto simp: decode_switch_def Let_def strcat_def mqtt_publish_def
           split: option.splits sum.splits if_splits)

lemma process_tag_result:
  assumes "process_tag buf now st = Inr (n, st')"
  shows "n = - 1 \<and> st' = st \<or>
         (\<exists>ti. tag_index (tagData st) (uint (buf ! 0)) = Some ti \<and>
               type (tagData st ! ti) \<noteq> TAG_TYPE_PM25_AQI \<and>
               n = 1 + tagTypeDataLength (type (tagData st ! ti)) \<and> 2 \<le> n)"
proof (cases "tag_index (tagData st) (uint (buf ! 0))")
  case None
  then show ?thesis using assms
    by (auto simp: process_tag_def rd_def split: if_splits)
next
  case (Some ti)
  let ?ty = "type (tagData st ! ti)"
  show ?thesis
  proof (cases "?ty = TAG_TYPE_PM25_AQI")
    case True
    then have "decode_switch ?ty (topic (tagData st ! ti)) buf st = Inr None"
      by (simp add: decode_switch_None)
    then show ?thesis using assms Some
      by (auto simp: process_tag_def rd_def Let_def split: if_splits)
  next
    case False
    then have "decode_switch ?ty (topic (tagData st ! ti)) buf st \<noteq> Inr None"
      by (simp add: decode_switch_None)
    then have "n = 1 + tagTypeDataLength ?ty" using assms Some
      by (auto simp: process_tag_def rd_def Let_def split: if_splits sum.splits option.splits)
    then show ?thesis using Some False tagTypeDataLength_pos [OF False] by simp
  qed
qed

lemma parse_loop_total: "\<exists>r. parse_loop buf readBytes len now st = Some r"
proof (induction "nat (len - readBytes)" arbitrary: buf readBytes st rule: less_induct)
  case less
  show ?case
  proof (cases "readBytes < len")
    case False
    then show ?thesis by (subst parse_loop.simps) simp
  next
    case running: True
    show ?thesis
    proof (cases "process_tag buf now st")
      case (Inl f)
      then show ?thesis using running by (subst parse_loop.simps) simp
    next
      case (Inr p)
      obtain n st' where p: "p = (n, st')" by (cases p)
      show ?thesis
      proof (cases "0 < n")
        case False
        then show ?thesis using running Inr p by (subst parse_loop.simps) simp
      next
        case True
        then have "nat (len - (readBytes + n)) < nat (len - readBytes)" using running by simp
        from less [OF this] obtain r
          where "parse_loop (drop (nat n) buf) (readBytes + n) len now st' = Some r" by blast
        then show ?thesis using running Inr p True by (subst parse_loop.simps) simp
      qed
    qed
  qed
qed

lemma parse_and_publish_total: "\<exists>r. parse_and_publish receive_buffer now st = Some r"
  using parse_loop_total
  by (auto simp: parse_and_publish_def Let_def split: sum.splits)

subsection \<open>Claim C9: the parser's loop terminates\<close>

text \<open>
  C9: the loop of \<^verbatim>\<open>parse_and_publish\<close> returns on every input (the loop function
  is defined without a termination argument, and is shown to have a value for every
  buffer, counter, length, time and state), and so does \<^verbatim>\<open>parse_and_publish\<close>. An
  iteration that does not stop advances by what \<^verbatim>\<open>process_tag\<close> returned, which is
  either -1 or 1 plus the width of the tag's decoding, a width of at least 1.
\<close>

theorem C9_parser_terminates:
  "(\<exists>r. parse_loop buf readBytes len now st = Some r) \<and>
   (\<exists>r. parse_and_publish receive_buffer now st = Some r) \<and>
   (case process_tag buf now st of
      Inl f \<Rightarrow> True
    | Inr (n, st') \<Rightarrow>
        n = - 1 \<or>
        (\<exists>ti. tag_index (tagData st) (uint (buf ! 0)) = Some ti \<and>
              n = 1 + tagTypeDataLength (type (tagData st ! ti)) \<and>
              1 \<le> tagTypeDataLength (type (tagData st ! ti))))"
proof (intro conjI)
  show "\<exists>r. parse_loop buf readBytes len now st = Some r" by (rule parse_loop_total)
  show "\<exists>r. parse_and_publish receive_buffer now st = Some r" by (rule parse_and_publish_total)
  show "case process_tag buf now st of
      Inl f \<Rightarrow> True
    | Inr (n, st') \<Rightarrow>
        n = - 1 \<or>
        (\<exists>ti. tag_index (tagData st) (uint (buf ! 0)) = Some ti \<and>
              n = 1 + tagTypeDataLength (type (tagData st ! ti)) \<and>
              1 \<le> tagTypeDataLength (type (tagData st ! ti)))"
  proof (cases "process_tag buf now st")
    case (Inl f)
    then show ?thesis by simp
  next
    case (Inr p)
    obtain n st' where p: "p = (n, st')" by (cases p)
    show ?thesis using process_tag_result [of buf now st n st'] Inr p
      by (auto simp: tagTypeDataLength_pos)
  qed
qed

lemma tag_index_loop_cong:
  "n \<le> length td \<Longrightarrow> length td' = length td \<Longrightarrow> map tag td' = map tag td \<Longrightarrow>
     tag_index_loop td' t n = tag_index_loop td t n"
proof (induction n)
  case 0
  then show ?case by simp
next
  case (Suc n)
  then have "tag (td' ! n) = tag (td ! n)" by (metis Suc_le_lessD nth_map)
  then show ?case using Suc by simp
qed

lemma tag_index_cong: "map tag td' = map tag td \<Longrightarrow> tag_index td' t = tag_index td t"
  using tag_index_loop_cong [of "length td" td td' t] map_eq_imp_length_eq [of tag td' tag td]
  by (simp add: tag_index_def)

lemma tag_index_loop_bound: "tag_index_loop td t n = Some i \<Longrightarrow> i < n \<and> uint (tag (td ! i)) = t"
  by (induction n) (auto split: if_splits)

lemma tag_index_bound: "tag_index td t = Some i \<Longrightarrow> i < length td \<and> uint (tag (td ! i)) = t"
  unfolding tag_index_def by (rule tag_index_loop_bound)

lemma registry_update:
  "registry (td[i := (td ! i)\<lparr>lastMessage := m, lastMessageTimestamp := ts\<rparr>]) = registry td"
proof (cases "i < length td")
  case True
  let ?f = "\<lambda>e. (tag e, type e, topic e)"
  have "map ?f (td[i := (td ! i)\<lparr>lastMessage := m, lastMessageTimestamp := ts\<rparr>])
          = (map ?f td)[i := map ?f td ! i]"
    using True by (simp add: map_update)
  then show ?thesis by (simp add: registry_def)
next
  case False
  then have "td[i := (td ! i)\<lparr>lastMessage := m, lastMessageTimestamp := ts\<rparr>] = td"
    by (simp add: list_update_beyond)
  then show ?thesis by simp
qed

lemma registry_publish_and_cache:
  "registry (tagData (publish_and_cache ti payload now st)) = registry (tagData st)"
  by (simp add: publish_and_cache_def Let_def mqtt_publish_def fprintf_stderr_def registry_update)

lemma process_tag_registry:
  assumes "process_tag buf now st = Inr (n, st')"
  shows "registry (tagData st') = registry (tagData st)"
  using assms decode_switch_tagData
  by (auto simp: process_tag_def Let_def registry_publish_and_cache
           split: sum.splits option.splits)

lemma registry_tag: "registry td' = registry td \<Longrightarrow> map tag td' = map tag td"
proof -
  assume "registry td' = registry td"
  then have "map fst (registry td') = map fst (registry td)" by simp
  then show ?thesis by (simp add: registry_def comp_def)
qed

lemma registry_tag_index: "registry td' = registry td \<Longrightarrow> tag_index td' t = tag_index td t"
  by (rule tag_index_cong) (rule registry_tag)

lemma registry_nth:
  assumes "registry td' = registry td" "i < length td"
  shows "tag (td' ! i) = tag (td ! i)" "type (td' ! i) = type (td ! i)" "topic (td' ! i) = topic (td ! i)"
proof -
  have l: "length td' = length td" using assms(1) unfolding registry_def by (rule map_eq_imp_length_eq)
  have "registry td' ! i = registry td ! i" using assms by simp
  then have "(tag (td' ! i), type (td' ! i), topic (td' ! i)) = (tag (td ! i), type (td ! i), topic (td ! i))"
    using assms(2) l by (simp add: registry_def)
  then show "tag (td' ! i) = tag (td ! i)" "type (td' ! i) = type (td ! i)" "topic (td' ! i) = topic (td ! i)"
    by simp_all
qed

lemma decode_chunks_registry:
  "decode_chunks cs now st = Some st' \<Longrightarrow> registry (tagData st') = registry (tagData st)"
proof (induction cs arbitrary: st)
  case Nil
  then show ?case by simp
next
  case (Cons c cs)
  then obtain n st1 where p: "process_tag c now st = Inr (n, st1)" and d: "decode_chunks cs now st1 = Some st'"
    by (auto split: sum.splits if_splits)
  show ?case using Cons.IH [OF d] process_tag_registry [OF p] by simp
qed











subsection \<open>Claim C6: an unknown tag ends the walk\<close>





lemma length_bits_msb_first [simp]: "length (bits_msb_first x) = 8"
  by (simp add: bits_msb_first_def)

lemma bits_msb_first_no_NUL: "NUL \<notin> set (bits_msb_first x)"
  by (auto simp: bits_msb_first_def NUL_def)

lemma fold_update_block:
  assumes "length pre = 8 * i" "length mid = 8"
  shows "fold (\<lambda>b p. p[(8 * i) + (7 - b) := g b]) [0..<8] (pre @ mid @ post)
           = pre @ map g [7, 6, 5, 4, 3, 2, 1, 0] @ post"
proof -
  from assms(2) have "length mid = Suc (Suc (Suc (Suc (Suc (Suc (Suc (Suc 0)))))))" by simp
  then obtain x0 x1 x2 x3 x4 x5 x6 x7 where mid: "mid = [x0, x1, x2, x3, x4, x5, x6, x7]"
    by (auto simp: length_Suc_conv)
  have upt8: "[0..<8] = [0, 1, 2, 3, 4, 5, 6, 7 :: nat]" by (simp add: upt_rec)
  show ?thesis
    using assms(1)
    by (simp add: upt8 mid list_update_append eval_nat_numeral)
qed

lemma bitmask_bits_block:
  assumes "length pre = 8 * i" "length mid = 8"
  shows "bitmask_bits buf i (pre @ mid @ post) = pre @ bits_msb_first (buf ! (1 + i)) @ post"
proof -
  have "bitmask_bits buf i (pre @ mid @ post)
          = fold (\<lambda>b p. p[(8 * i) + (7 - b) :=
                     (if bit (buf ! (1 + i)) b then CHR ''1'' else CHR ''0'')]) [0..<8] (pre @ mid @ post)"
    unfolding bitmask_bits_def by (simp only: bit_iff_and_push_bit_not_eq_0)
  also have "\<dots> = pre @ map (\<lambda>b. if bit (buf ! (1 + i)) b then CHR ''1'' else CHR ''0'')
                          [7, 6, 5, 4, 3, 2, 1, 0] @ post"
    by (rule fold_update_block [OF assms])
  finally show ?thesis by (simp only: bits_msb_first_def)
qed

lemma length_concat_bits: "length (concat (map (\<lambda>i. bits_msb_first (f i)) xs)) = 8 * length xs"
  by (induction xs) simp_all

lemma bitmask_bytes_prefix:
  assumes "n \<le> 16" "8 * n \<le> length p"
  shows "fold (bitmask_bits buf) [0..<n] p
           = concat (map (\<lambda>i. bits_msb_first (buf ! (1 + i))) [0..<n]) @ drop (8 * n) p"
  using assms
proof (induction n)
  case 0
  then show ?case by simp
next
  case (Suc n)
  let ?pre = "concat (map (\<lambda>i. bits_msb_first (buf ! (1 + i))) [0..<n])"
  let ?mid = "take 8 (drop (8 * n) p)" and ?post = "drop (8 * Suc n) p"
  have "?post = drop 8 (drop (8 * n) p)" by simp
  then have split: "drop (8 * n) p = ?mid @ ?post"
    by (simp only: append_take_drop_id)
  have lp: "length ?pre = 8 * n" by (simp add: length_concat_bits)
  have lm: "length ?mid = 8" using Suc.prems by simp
  have "fold (bitmask_bits buf) [0..<Suc n] p = bitmask_bits buf n (fold (bitmask_bits buf) [0..<n] p)"
    by simp
  also have "\<dots> = bitmask_bits buf n (?pre @ ?mid @ ?post)"
    using Suc.IH Suc.prems split by simp
  also have "\<dots> = ?pre @ bits_msb_first (buf ! (1 + n)) @ ?post"
    by (rule bitmask_bits_block [OF lp lm])
  finally show ?case by simp
qed

lemma bitmask_payload:
  assumes "length bs = 16"
  shows "takeWhile (\<lambda>c. c \<noteq> NUL) ((bitmask_bytes (t # bs @ rest) (replicate 256 NUL))[128 := NUL])
           = concat (map bits_msb_first bs)"
proof -
  let ?buf = "t # bs @ rest"
  have m: "map (\<lambda>i. bits_msb_first (?buf ! (1 + i))) [0..<16] = map bits_msb_first bs"
  proof -
    have "map (\<lambda>i. bits_msb_first (?buf ! (1 + i))) [0..<16] = map (\<lambda>i. bits_msb_first (bs ! i)) [0..<length bs]"
      using assms by (auto simp: nth_append)
    also have "\<dots> = map bits_msb_first (map (\<lambda>i. bs ! i) [0..<length bs])" by simp
    also have "\<dots> = map bits_msb_first bs" by (simp only: map_nth)
    finally show ?thesis .
  qed
  have "bitmask_bytes ?buf (replicate 256 NUL)
          = concat (map bits_msb_first bs) @ drop (8 * 16) (replicate 256 NUL)"
    unfolding bitmask_bytes_def using bitmask_bytes_prefix [of 16 "replicate 256 NUL" ?buf] m by simp
  also have "\<dots> = concat (map bits_msb_first bs) @ replicate 128 NUL" by simp
  finally have b: "bitmask_bytes ?buf (replicate 256 NUL) = concat (map bits_msb_first bs) @ replicate 128 NUL" .
  have l: "length (concat (map bits_msb_first bs)) = 128"
    using length_concat_bits [of "\<lambda>x. x" bs] assms by simp
  have "(concat (map bits_msb_first bs) @ replicate 128 NUL)[128 := NUL]
          = concat (map bits_msb_first bs) @ replicate 128 NUL"
    using l by (simp add: list_update_append) (simp add: list_eq_iff_nth_eq nth_list_update)
  moreover have "takeWhile (\<lambda>c. c \<noteq> NUL) (concat (map bits_msb_first bs) @ replicate 128 NUL)
                   = concat (map bits_msb_first bs)"
  proof -
    have "\<And>c. c \<in> set (concat (map bits_msb_first bs)) \<Longrightarrow> c \<noteq> NUL"
      using bits_msb_first_no_NUL by auto
    then have "takeWhile (\<lambda>c. c \<noteq> NUL) (concat (map bits_msb_first bs) @ replicate 128 NUL)
                 = concat (map bits_msb_first bs) @ takeWhile (\<lambda>c. c \<noteq> NUL) (replicate 128 NUL)"
      by (rule takeWhile_append2)
    then show ?thesis by (simp add: takeWhile_replicate)
  qed
  ultimately show ?thesis using b by simp
qed

lemma length_tagData_init: "length tagData_init = 116"
  by (simp add: tagData_init_def)

lemma process_tag_known:
  assumes "tag_index (tagData st) (uint t) = Some ti"
    and "decode_switch (type (tagData st ! ti)) (topic (tagData st ! ti)) (t # ds) st
           = Inr (Some (payload, st1))"
  shows "process_tag (t # ds) now st
           = Inr (1 + tagTypeDataLength (type (tagData st ! ti)), publish_and_cache ti payload now st1)"
  using assms by (simp add: process_tag_def rd_def Let_def)

lemma registered_lookup:
  assumes "registry (tagData st) = registry tagData_init"
    and "tag_index tagData_init x = Some ti"
  shows "tag_index (tagData st) x = Some ti"
    "type (tagData st ! ti) = type (tagData_init ! ti)"
    "topic (tagData st ! ti) = topic (tagData_init ! ti)"
    "ti < length (tagData st)"
proof -
  have b: "ti < length tagData_init" using tag_index_bound [OF assms(2)] by simp
  show "tag_index (tagData st) x = Some ti"
    using registry_tag_index [OF assms(1)] assms(2) by simp
  show "type (tagData st ! ti) = type (tagData_init ! ti)"
    "topic (tagData st ! ti) = topic (tagData_init ! ti)"
    using registry_nth [OF assms(1) b] by simp_all
  have "length (registry (tagData st)) = length (registry tagData_init)" using assms(1) by simp
  then show "ti < length (tagData st)" using b by (simp add: registry_def)
qed

lemma be16: "push_bit 8 (uint (b1 :: byte)) + uint (b2 :: byte) = 256 * uint b1 + uint b2"
  by (simp add: push_bit_eq_mult)

lemma high_bit: "((b :: byte) AND 0x80 \<noteq> 0) = bit b 7"
proof -
  have "(0x80 :: byte) = push_bit 7 1" by simp
  then show ?thesis by (simp only: bit_iff_and_push_bit_not_eq_0)
qed

lemma decode_signed:
  "decode_switch TAG_TYPE_SHORT_DIVIDE_BY_10_SIGNED tp (t # b1 # b2 # rest) st
     = Inr (Some (snprintf_1f_div10
                    (if bit b1 7 then 256 * uint b1 + uint b2 - 0xFFFF else 256 * uint b1 + uint b2), st))"
  by (simp add: decode_switch_def Let_def be16 high_bit del: push_bit_eq_mult)

lemma snprintf_examples:
  "snprintf_1f_div10 10 = ''1.0''" "snprintf_1f_div10 (- 9) = ''-0.9''"
  by (simp_all add: snprintf_1f_div10_def decimal.simps digit_char_def)

lemma tag_0x01: "tag_index tagData_init 0x01 = Some 0"
  "type (tagData_init ! 0) = TAG_TYPE_SHORT_DIVIDE_BY_10_SIGNED"
  "topic (tagData_init ! 0) = ''temperature/indoors''"
  by code_simp+

lemma tag_0x4C: "tag_index tagData_init 0x4C = Some 74"
  "type (tagData_init ! 74) = TAG_TYPE_16_BYTES_BITMASK"
  "topic (tagData_init ! 74) = ''all_sensor_low_battery''"
  by code_simp+

lemma concat_nth_block:
  assumes "\<And>x. length (f x) = 8" "i < length bs" "j < 8"
  shows "concat (map f bs) ! (8 * i + j) = f (bs ! i) ! j"
  using assms(2)
proof (induction bs arbitrary: i)
  case Nil
  then show ?case by simp
next
  case (Cons x xs)
  show ?case
  proof (cases i)
    case 0
    then show ?thesis using assms(1,3) by (simp add: nth_append)
  next
    case (Suc k)
    then have "k < length xs" using Cons.prems by simp
    from Cons.IH [OF this] show ?thesis using Suc assms(1) by (simp add: nth_append)
  qed
qed

lemma bits_msb_first_nth:
  assumes "b < 8"
  shows "bits_msb_first x ! (7 - b) = (if bit x b then CHR ''1'' else CHR ''0'')"
proof -
  from assms consider "b = 0" | "b = 1" | "b = 2" | "b = 3" | "b = 4" | "b = 5" | "b = 6" | "b = 7"
    by linarith
  then show ?thesis by cases (simp_all add: bits_msb_first_def)
qed

lemma bitmask_char:
  assumes "length bs = 16" "i < 16" "b < 8"
  shows "concat (map bits_msb_first bs) ! (8 * i + (7 - b)) = (if bit (bs ! i) b then CHR ''1'' else CHR ''0'')"
proof -
  have "concat (map bits_msb_first bs) ! (8 * i + (7 - b)) = bits_msb_first (bs ! i) ! (7 - b)"
    by (rule concat_nth_block) (use assms in simp_all)
  then show ?thesis using bits_msb_first_nth [OF assms(3)] by simp
qed

lemma decode_bitmask:
  assumes "length bs = 16"
  shows "decode_switch TAG_TYPE_16_BYTES_BITMASK tp (t # bs @ rest) st
           = Inr (Some (concat (map bits_msb_first bs), st))"
  using assms bitmask_payload [OF assms, of t rest] by (simp add: decode_switch_def Let_def)

lemma process_tag_0x4C:
  assumes "length bs = 16"
  shows "process_tag (0x4C # bs @ rest) now world_init
           = Inr (17, publish_and_cache 74 (concat (map bits_msb_first bs)) now world_init)"
proof -
  have td: "tagData world_init = tagData_init" by (simp add: world_init_def)
  have "process_tag (0x4C # bs @ rest) now world_init
          = Inr (1 + tagTypeDataLength (type (tagData world_init ! 74)),
                 publish_and_cache 74 (concat (map bits_msb_first bs)) now world_init)"
    by (rule process_tag_known) (simp_all add: td tag_0x4C decode_bitmask [OF assms])
  then show ?thesis by (simp add: td tag_0x4C)
qed

subsection \<open>Claim C4: the bitmask of 16 bytes\<close>

text \<open>
  C4, amended: for 16 data bytes the decoder produces 128 characters, the character at
  index \<open>8 * i + (7 - b)\<close> being 1 exactly when bit \<open>b\<close> of byte \<open>i\<close> is set: each
  byte most significant bit first, bytes in ascending order. Sixteen zero bytes give
  128 zeros. Bit 0 of byte 0 is the character at index 7; the last character is bit 0
  of byte 15.
\<close>

theorem C4_bitmask_msb_first:
  assumes "length bs = 16"
  shows "decode_switch TAG_TYPE_16_BYTES_BITMASK tp (t # bs @ rest) st
           = Inr (Some (concat (map bits_msb_first bs), st)) \<and>
         process_tag (0x4C # bs @ rest) now world_init
           = Inr (17, publish_and_cache 74 (concat (map bits_msb_first bs)) now world_init) \<and>
         length (concat (map bits_msb_first bs)) = 128 \<and>
         (\<forall>i < 16. \<forall>b < 8. concat (map bits_msb_first bs) ! (8 * i + (7 - b))
                               = (if bit (bs ! i) b then CHR ''1'' else CHR ''0'')) \<and>
         concat (map bits_msb_first bs) ! 7 = (if bit (bs ! 0) 0 then CHR ''1'' else CHR ''0'') \<and>
         last (concat (map bits_msb_first bs)) = (if bit (bs ! 15) 0 then CHR ''1'' else CHR ''0'') \<and>
         concat (map bits_msb_first (replicate 16 0)) = replicate 128 (CHR ''0'')"
proof (intro conjI)
  let ?p = "concat (map bits_msb_first bs)"
  show "decode_switch TAG_TYPE_16_BYTES_BITMASK tp (t # bs @ rest) st = Inr (Some (?p, st))"
    by (rule decode_bitmask [OF assms])
  show "process_tag (0x4C # bs @ rest) now world_init
           = Inr (17, publish_and_cache 74 ?p now world_init)"
    by (rule process_tag_0x4C [OF assms])
  show l: "length ?p = 128" using length_concat_bits [of "\<lambda>x. x" bs] assms by simp
  show "\<forall>i < 16. \<forall>b < 8. ?p ! (8 * i + (7 - b)) = (if bit (bs ! i) b then CHR ''1'' else CHR ''0'')"
    using bitmask_char [OF assms] by blast
  show "?p ! 7 = (if bit (bs ! 0) 0 then CHR ''1'' else CHR ''0'')"
    using bitmask_char [OF assms, of 0 0] by simp
  have "length ?p \<noteq> 0" using l by simp
  then have "?p \<noteq> []" by (simp only: length_0_conv not_False_eq_True)
  then have "last ?p = ?p ! (8 * 15 + (7 - 0))" using l by (simp add: last_conv_nth)
  then show "last ?p = (if bit (bs ! 15) 0 then CHR ''1'' else CHR ''0'')"
    using bitmask_char [OF assms, of 15 0] by simp
  show "concat (map bits_msb_first (replicate 16 0)) = replicate 128 (CHR ''0'')"
    by code_simp
qed

theorem C4_bitmask_msb_first_witness:
  "length (0x01 # replicate 15 (0 :: byte)) = 16 \<and>
   process_tag (0x4C # (0x01 # replicate 15 0) @ []) 1000 world_init
     = Inr (17, publish_and_cache 74 (''00000001'' @ replicate 120 (CHR ''0'')) 1000 world_init) \<and>
   (''00000001'' @ replicate 120 (CHR ''0'')) ! 7 = CHR ''1''"
proof -
  have l: "length (0x01 # replicate 15 (0 :: byte)) = 16" by simp
  have e: "concat (map bits_msb_first (0x01 # replicate 15 (0 :: byte))) = ''00000001'' @ replicate 120 (CHR ''0'')"
    by code_simp
  show ?thesis
    using C4_bitmask_msb_first [OF l, of "''all_sensor_low_battery''" "0x4C" "[]" world_init 1000]
    unfolding e by simp
qed

text \<open>
  C4, as stated, fails in its second half: with bit 0 of byte 0 set (and nothing else)
  the published string is seven zeros, a one and 120 zeros; its last character is 0.
\<close>

theorem C4_last_character_counterexample:
  "(case process_tag (0x4C # 0x01 # replicate 15 0) 1000 world_init of
      Inl f \<Rightarrow> False
    | Inr (n, st') \<Rightarrow>
        n = 17 \<and>
        published st' = [(''all_sensor_low_battery'', ''00000001'' @ replicate 120 (CHR ''0''))]) \<and>
   bit (0x01 :: byte) 0 \<and>
   last (''00000001'' @ replicate 120 (CHR ''0'')) = CHR ''0''"
proof -
  have l: "length (0x01 # replicate 15 (0 :: byte)) = 16" by simp
  have e: "concat (map bits_msb_first (0x01 # replicate 15 (0 :: byte))) = ''00000001'' @ replicate 120 (CHR ''0'')"
    by code_simp
  have "process_tag (0x4C # (0x01 # replicate 15 0) @ []) 1000 world_init
     = Inr (17, publish_and_cache 74 (''00000001'' @ replicate 120 (CHR ''0'')) 1000 world_init)"
    using process_tag_0x4C [OF l, of "[]" 1000] unfolding e .
  moreover have "published (publish_and_cache 74 (''00000001'' @ replicate 120 (CHR ''0'')) 1000 world_init)
      = [(''all_sensor_low_battery'', ''00000001'' @ replicate 120 (CHR ''0''))]"
    by (simp add: publish_and_cache_def mqtt_publish_def Let_def world_init_def tag_0x4C)
  ultimately show ?thesis by simp
qed

lemma process_tag_0x01:
  "process_tag (0x01 # b1 # b2 # rest) now world_init
     = Inr (3, publish_and_cache 0
                 (snprintf_1f_div10
                    (if bit b1 7 then 256 * uint b1 + uint b2 - 0xFFFF else 256 * uint b1 + uint b2))
                 now world_init)"
proof -
  have td: "tagData world_init = tagData_init" by (simp add: world_init_def)
  let ?v = "if bit b1 7 then 256 * uint b1 + uint b2 - 0xFFFF else 256 * uint b1 + uint b2"
  have "process_tag (0x01 # b1 # b2 # rest) now world_init
          = Inr (1 + tagTypeDataLength (type (tagData world_init ! 0)),
                 publish_and_cache 0 (snprintf_1f_div10 ?v) now world_init)"
    by (rule process_tag_known) (simp_all add: td tag_0x01 decode_signed)
  then show ?thesis by (simp add: td tag_0x01)
qed

subsection \<open>Claim C5: a signed short, divided by 10\<close>

text \<open>
  C5: bytes 00 0A are printed as 1.0 and bytes FF F6 as -0.9. For every two bytes the
  decoder takes the big-endian value, subtracts 0xFFFF when bit 7 of the first byte is
  set, and prints the result as tenths: a sign when negative, the whole part, a point
  and one digit. The same through \<^verbatim>\<open>process_tag\<close> for the indoor temperature (tag
  0x01) in the initial state.
\<close>

theorem C5_short_scaled_signed:
  "decode_switch TAG_TYPE_SHORT_DIVIDE_BY_10_SIGNED tp [t, 0x00, 0x0A] st = Inr (Some (''1.0'', st)) \<and>
   decode_switch TAG_TYPE_SHORT_DIVIDE_BY_10_SIGNED tp [t, 0xFF, 0xF6] st = Inr (Some (''-0.9'', st)) \<and>
   (let value16 = 256 * uint b1 + uint b2;
        tenths = (if bit b1 7 then value16 - 0xFFFF else value16)
    in decode_switch TAG_TYPE_SHORT_DIVIDE_BY_10_SIGNED tp (t # b1 # b2 # rest) st
         = Inr (Some ((if tenths < 0 then ''-'' else '''') @ decimal (nat \<bar>tenths\<bar> div 10) @ ''.'' @
                      decimal (nat \<bar>tenths\<bar> mod 10), st))) \<and>
   process_tag [0x01, 0x00, 0x0A] now world_init = Inr (3, publish_and_cache 0 ''1.0'' now world_init) \<and>
   process_tag [0x01, 0xFF, 0xF6] now world_init = Inr (3, publish_and_cache 0 ''-0.9'' now world_init)"
proof (intro conjI)
  have b: "bit (0xFF :: byte) 7" "\<not> bit (0x00 :: byte) 7" by simp_all
  show "decode_switch TAG_TYPE_SHORT_DIVIDE_BY_10_SIGNED tp [t, 0x00, 0x0A] st = Inr (Some (''1.0'', st))"
    unfolding decode_signed using b snprintf_examples by simp
  show "decode_switch TAG_TYPE_SHORT_DIVIDE_BY_10_SIGNED tp [t, 0xFF, 0xF6] st = Inr (Some (''-0.9'', st))"
    unfolding decode_signed using b snprintf_examples by simp
  have d: "decimal (n mod 10) = [digit_char (n mod 10)]" for n
    by (subst decimal.simps) simp
  show "let value16 = 256 * uint b1 + uint b2;
        tenths = (if bit b1 7 then value16 - 0xFFFF else value16)
    in decode_switch TAG_TYPE_SHORT_DIVIDE_BY_10_SIGNED tp (t # b1 # b2 # rest) st
         = Inr (Some ((if tenths < 0 then ''-'' else '''') @ decimal (nat \<bar>tenths\<bar> div 10) @ ''.'' @
                      decimal (nat \<bar>tenths\<bar> mod 10), st))"
    unfolding decode_signed Let_def snprintf_1f_div10_def d by simp
  show "process_tag [0x01, 0x00, 0x0A] now world_init = Inr (3, publish_and_cache 0 ''1.0'' now world_init)"
    unfolding process_tag_0x01 using b snprintf_examples by simp
  show "process_tag [0x01, 0xFF, 0xF6] now world_init = Inr (3, publish_and_cache 0 ''-0.9'' now world_init)"
    unfolding process_tag_0x01 using b snprintf_examples by simp
qed

lemma strrchr_last:
  "strrchr s c = (if c \<in> set s then Some (c # rev (takeWhile (\<lambda>x. x \<noteq> c) (rev s))) else None)"
proof (induction s)
  case Nil
  then show ?case by simp
next
  case (Cons x xs)
  show ?case
  proof (cases "c \<in> set xs")
    case True
    then have "takeWhile (\<lambda>x. x \<noteq> c) (rev xs @ [x]) = takeWhile (\<lambda>x. x \<noteq> c) (rev xs)"
      by (intro takeWhile_append1 [of c]) simp_all
    then show ?thesis using Cons True by simp
  next
    case False
    then have "\<And>x. x \<in> set (rev xs) \<Longrightarrow> x \<noteq> c" by auto
    then have "takeWhile (\<lambda>x. x \<noteq> c) (rev xs @ [c]) = rev xs @ takeWhile (\<lambda>x. x \<noteq> c) [c]"
      by (rule takeWhile_append2)
    then have "takeWhile (\<lambda>x. x \<noteq> c) (rev xs @ [c]) = rev xs" by simp
    then show ?thesis using Cons False by auto
  qed
qed

lemma decode_temp_and_batt:
  assumes "CHR ''/'' \<in> set tp" "length tp < 200"
  shows "decode_switch TAG_TYPE_3_BYTES_TEMP_AND_BATT tp (t # b1 # b2 # b3 # rest) st
     = Inr (Some (snprintf_1f_div10
                    (if bit b1 7 then 256 * uint b1 + uint b2 - 0xFFFF else 256 * uint b1 + uint b2),
                  mqtt_publish (''battery/'' @ last_segment tp) (snprintf_2f_times_002 (unat b3)) st))"
proof -
  have l: "length (takeWhile (\<lambda>x. x \<noteq> CHR ''/'') (rev tp)) \<le> length tp"
    using length_takeWhile_le [of _ "rev tp"] by simp
  show ?thesis
    using assms l
    by (simp add: decode_switch_def Let_def be16 high_bit strrchr_last strcat_def last_segment_def
             del: push_bit_eq_mult)
qed

lemma temp_and_batt_entries:
  "list_all (\<lambda>ti. type (tagData_init ! ti) \<noteq> TAG_TYPE_3_BYTES_TEMP_AND_BATT \<or>
                  (tag_index tagData_init (uint (tag (tagData_init ! ti))) = Some ti \<and>
                   CHR ''/'' \<in> set (topic (tagData_init ! ti)) \<and>
                   length (topic (tagData_init ! ti)) < 200))
            [0..<116]"
  by code_simp

lemma temp_and_batt_entry:
  assumes "ti < length tagData_init" "type (tagData_init ! ti) = TAG_TYPE_3_BYTES_TEMP_AND_BATT"
  shows "tag_index tagData_init (uint (tag (tagData_init ! ti))) = Some ti"
    "CHR ''/'' \<in> set (topic (tagData_init ! ti))" "length (topic (tagData_init ! ti)) < 200"
proof -
  have "ti \<in> set [0..<116]" using assms(1) by (simp add: length_tagData_init)
  with temp_and_batt_entries
  have "type (tagData_init ! ti) \<noteq> TAG_TYPE_3_BYTES_TEMP_AND_BATT \<or>
                  (tag_index tagData_init (uint (tag (tagData_init ! ti))) = Some ti \<and>
                   CHR ''/'' \<in> set (topic (tagData_init ! ti)) \<and>
                   length (topic (tagData_init ! ti)) < 200)"
    unfolding list_all_iff by blast
  with assms(2) show "tag_index tagData_init (uint (tag (tagData_init ! ti))) = Some ti"
    "CHR ''/'' \<in> set (topic (tagData_init ! ti))" "length (topic (tagData_init ! ti)) < 200"
    by simp_all
qed

subsection \<open>Claim C8: temperature and battery\<close>

text \<open>
  C8: for every registry entry whose decoding is \<^verbatim>\<open>TAG_TYPE_3_BYTES_TEMP_AND_BATT\<close>, in
  every state that holds the program's registry, \<^verbatim>\<open>process_tag\<close> on the tag and three
  data bytes returns 4 and publishes exactly two messages: the third byte times 0.02
  (two decimals, that is twice the byte in hundredths) on \<open>battery/\<close> followed by the
  final path segment of the tag's topic, and bytes 0 and 1 decoded as the signed short
  divided by 10 (the text the \<^verbatim>\<open>TAG_TYPE_SHORT_DIVIDE_BY_10_SIGNED\<close> case prints for them)
  on the tag's own topic.
\<close>

theorem C8_temp_and_battery:
  assumes reg: "registry (tagData st) = registry tagData_init"
    and ti: "ti < length tagData_init"
    and ty: "type (tagData_init ! ti) = TAG_TYPE_3_BYTES_TEMP_AND_BATT"
  shows "let tp = topic (tagData_init ! ti);
             value16 = 256 * uint b1 + uint b2;
             tenths = (if bit b1 7 then value16 - 0xFFFF else value16);
             hundredths = 2 * unat b3
         in (\<exists>st'. process_tag (tag (tagData_init ! ti) # b1 # b2 # b3 # rest) now st = Inr (4, st') \<and>
                   published st' = published st @
                      [(''battery/'' @ last_segment tp, snprintf_2f_times_002 (unat b3)),
                       (tp, snprintf_1f_div10 tenths)]) \<and>
            decode_switch TAG_TYPE_SHORT_DIVIDE_BY_10_SIGNED tp [tag (tagData_init ! ti), b1, b2] st
              = Inr (Some (snprintf_1f_div10 tenths, st)) \<and>
            snprintf_2f_times_002 (unat b3)
              = decimal (hundredths div 100) @ ''.'' @
                decimal (hundredths div 10 mod 10) @ decimal (hundredths mod 10)"
proof -
  let ?t = "tag (tagData_init ! ti)" and ?tp = "topic (tagData_init ! ti)"
  let ?v = "if bit b1 7 then 256 * uint b1 + uint b2 - 0xFFFF else 256 * uint b1 + uint b2"
  let ?batt = "(''battery/'' @ last_segment ?tp, snprintf_2f_times_002 (unat b3))"
  note e = temp_and_batt_entry [OF ti ty]
  note r = registered_lookup [OF reg e(1)]
  have d: "decode_switch (type (tagData st ! ti)) (topic (tagData st ! ti)) (?t # b1 # b2 # b3 # rest) st
             = Inr (Some (snprintf_1f_div10 ?v, mqtt_publish (fst ?batt) (snd ?batt) st))"
    unfolding r(2,3) ty using decode_temp_and_batt [OF e(2,3)] by simp
  have p: "process_tag (?t # b1 # b2 # b3 # rest) now st
             = Inr (1 + tagTypeDataLength (type (tagData st ! ti)),
                    publish_and_cache ti (snprintf_1f_div10 ?v) now (mqtt_publish (fst ?batt) (snd ?batt) st))"
    by (rule process_tag_known [OF r(1) d])
  have ne: "snprintf_1f_div10 ?v \<noteq> []" by (simp add: snprintf_1f_div10_def)
  have pub: "published (publish_and_cache ti (snprintf_1f_div10 ?v) now (mqtt_publish (fst ?batt) (snd ?batt) st))
               = published st @ [?batt, (?tp, snprintf_1f_div10 ?v)]"
    using ne r(3) by (simp add: publish_and_cache_def Let_def mqtt_publish_def)
  have n: "1 + tagTypeDataLength (type (tagData st ! ti)) = 4" unfolding r(2) ty by simp
  have dd: "decimal (k mod 10) = [digit_char (k mod 10)]" for k
    by (subst decimal.simps) simp
  have two: "snprintf_2f_times_002 (unat b3)
              = decimal (2 * unat b3 div 100) @ ''.'' @
                decimal (2 * unat b3 div 10 mod 10) @ decimal (2 * unat b3 mod 10)"
    by (simp add: snprintf_2f_times_002_def dd)
  show ?thesis
    unfolding Let_def using p pub n two decode_signed [of ?tp ?t b1 b2 "[]" st] by simp
qed

lemma tag_0x63:
  "tag (tagData_init ! 89) = 0x63"
  "type (tagData_init ! 89) = TAG_TYPE_3_BYTES_TEMP_AND_BATT"
  "topic (tagData_init ! 89) = ''temperature/t1''"
  by code_simp+

lemma example_temp_and_batt:
  "last_segment ''temperature/t1'' = ''t1''"
  "snprintf_2f_times_002 75 = ''1.50''"
  "snprintf_1f_div10 (- 199) = ''-19.9''"
  "bit (0xFF :: byte) 7"
  by code_simp+

theorem C8_temp_and_battery_witness:
  "registry (tagData world_init) = registry tagData_init \<and>
   89 < length tagData_init \<and>
   type (tagData_init ! 89) = TAG_TYPE_3_BYTES_TEMP_AND_BATT \<and>
   (\<exists>st'. process_tag [0x63, 0xFF, 0x38, 0x4B] 1000 world_init = Inr (4, st') \<and>
          published st' = [(''battery/t1'', ''1.50''), (''temperature/t1'', ''-19.9'')])"
proof -
  have reg: "registry (tagData world_init) = registry tagData_init" by (simp add: world_init_def)
  have ti: "89 < length tagData_init" by (simp add: length_tagData_init)
  have pub: "published world_init = []" by (simp add: world_init_def)
  note inst = C8_temp_and_battery [OF reg ti tag_0x63(2), of "0xFF" "0x38" "0x4B" "[]" 1000,
      unfolded Let_def, THEN conjunct1]
  have "\<exists>st'. process_tag [0x63, 0xFF, 0x38, 0x4B] 1000 world_init = Inr (4, st') \<and>
          published st' = [(''battery/t1'', ''1.50''), (''temperature/t1'', ''-19.9'')]"
    using inst unfolding tag_0x63 pub by (simp add: example_temp_and_batt)
  then show ?thesis using reg ti tag_0x63(2) by blast
qed

lemma digits_no_NUL: "list_all (\<lambda>d. digit_char d \<noteq> NUL) [0..<10]"
  by code_simp

lemma digit_char_no_NUL: "d < 10 \<Longrightarrow> digit_char d \<noteq> NUL" "d < 10 \<Longrightarrow> NUL \<noteq> digit_char d"
proof -
  assume "d < 10"
  then have "d \<in> set [0..<10]" by simp
  with digits_no_NUL show "digit_char d \<noteq> NUL" unfolding list_all_iff by blast
  then show "NUL \<noteq> digit_char d" by (rule not_sym)
qed

lemma decimal_no_NUL: "NUL \<notin> set (decimal n)"
proof (induction n rule: decimal.induct)
  case (1 n)
  show ?case
  proof (cases "n < 10")
    case True
    then show ?thesis by (subst decimal.simps) (simp add: digit_char_no_NUL)
  next
    case False
    then show ?thesis using 1 by (subst decimal.simps) (simp add: digit_char_no_NUL)
  qed
qed

lemma decimal_not_Nil: "decimal n \<noteq> []"
  by (subst decimal.simps) simp

lemma snprintf_no_NUL:
  "NUL \<notin> set (snprintf_d x)" "NUL \<notin> set (snprintf_1f_div10 x)"
proof -
  have c: "CHR ''-'' \<noteq> NUL" "CHR ''.'' \<noteq> NUL" "NUL \<noteq> CHR ''-''" "NUL \<noteq> CHR ''.''"
    by (simp_all add: NUL_def)
  show "NUL \<notin> set (snprintf_d x)"
    using c by (simp add: snprintf_d_def decimal_no_NUL)
  show "NUL \<notin> set (snprintf_1f_div10 x)"
    using c by (simp add: snprintf_1f_div10_def decimal_no_NUL digit_char_no_NUL)
qed

lemma decode_switch_no_NUL:
  assumes "decode_switch ty tp buf st = Inr (Some (payload, st1))"
  shows "NUL \<notin> set payload"
proof (cases "ty = TAG_TYPE_16_BYTES_BITMASK")
  case True
  then obtain xs where "payload = takeWhile (\<lambda>c. c \<noteq> NUL) xs"
    using assms by (auto simp: decode_switch_def Let_def split: if_splits)
  then show ?thesis using set_takeWhileD [of NUL "\<lambda>c. c \<noteq> NUL" xs] by auto
next
  case False
  then show ?thesis using assms snprintf_no_NUL
    by (cases ty)
       (auto simp: decode_switch_def Let_def strcat_def split: if_splits option.splits)
qed

lemma decode_switch_empty:
  assumes "decode_switch ty tp buf st = Inr (Some ([], st1))"
  shows "st1 = st"
  using assms
  by (cases ty)
     (auto simp: decode_switch_def Let_def strcat_def snprintf_1f_div10_def
           split: if_splits option.splits)

lemma cstring_strncpy:
  assumes "NUL \<notin> set payload"
  shows "cstring (strncpy payload 32)
           = (if length payload < 32 then Inr payload else Inl OutOfBounds)"
proof (cases "length payload < 32")
  case True
  then have r: "replicate (32 - length payload) NUL = NUL # replicate (31 - length payload) NUL"
    by (cases "32 - length payload") auto
  have "\<And>c. c \<in> set payload \<Longrightarrow> c \<noteq> NUL" using assms by auto
  then have "takeWhile (\<lambda>c. c \<noteq> NUL) (payload @ NUL # replicate (31 - length payload) NUL)
               = payload @ takeWhile (\<lambda>c. c \<noteq> NUL) (NUL # replicate (31 - length payload) NUL)"
    by (rule takeWhile_append2)
  then have "takeWhile (\<lambda>c. c \<noteq> NUL) (payload @ NUL # replicate (31 - length payload) NUL) = payload"
    by simp
  then show ?thesis using True r by (simp add: cstring_def strncpy_def)
next
  case False
  then have "strncpy payload 32 = take 32 payload" by (simp add: strncpy_def)
  moreover have "NUL \<notin> set (take 32 payload)" using assms by (meson in_set_takeD)
  ultimately show ?thesis using False by (simp add: cstring_def)
qed

lemma publish_and_cache_nonempty:
  assumes "payload \<noteq> []" "ti < length (tagData st1)"
  shows "published (publish_and_cache ti payload now st1)
           = published st1 @ [(topic (tagData st1 ! ti), payload)]"
    "lastMessage (tagData (publish_and_cache ti payload now st1) ! ti) = strncpy payload 32"
    "lastMessageTimestamp (tagData (publish_and_cache ti payload now st1) ! ti) = now"
  using assms
  by (simp_all add: publish_and_cache_def Let_def mqtt_publish_def MQTT_MESSAGE_MAXLEN_def)

subsection \<open>Claim C10: the cached message is the first 32 bytes\<close>

text \<open>
  C10: whenever \<^verbatim>\<open>process_tag\<close> publishes, the last message published is on the tag's
  topic, and the tag's \<^verbatim>\<open>lastMessage\<close> holds the first 32 characters of its payload,
  padded with NUL to 32 cells, with the time of the call. A payload shorter than 32 is
  read back from the cache unchanged; from 32 characters on the cache holds no NUL
  (reading it as a string leaves the array), and for a payload longer than 32 the
  cached cells differ from the payload. The witness runs a temperature (3 characters)
  and the bitmask (128 characters, of which 32 are cached).
\<close>

theorem C10_cache_keeps_first_32_bytes:
  assumes run: "process_tag buf now st = Inr (n, st')"
    and pub: "published st' \<noteq> published st"
  shows "case tag_index (tagData st) (uint (buf ! 0)) of
           None \<Rightarrow> False
         | Some ti \<Rightarrow>
             let payload = snd (last (published st'));
                 cached = lastMessage (tagData st' ! ti)
             in fst (last (published st')) = topic (tagData st ! ti) \<and>
                cached = take 32 payload @ replicate (32 - length payload) NUL \<and>
                length cached = 32 \<and>
                lastMessageTimestamp (tagData st' ! ti) = now \<and>
                (if length payload < 32 then cstring cached = Inr payload
                 else cached = take 32 payload \<and> cstring cached = Inl OutOfBounds \<and>
                      (if 32 < length payload then cached \<noteq> payload else cached = payload))"
proof (cases "tag_index (tagData st) (uint (buf ! 0))")
  case None
  then have "st' = st" using run by (auto simp: process_tag_def rd_def split: if_splits)
  then show ?thesis using pub by simp
next
  case (Some ti)
  let ?ty = "type (tagData st ! ti)" and ?tp = "topic (tagData st ! ti)"
  have b: "ti < length (tagData st)" using tag_index_bound [OF Some] by simp
  from run Some obtain d where d: "decode_switch ?ty ?tp buf st = Inr d"
    by (auto simp: process_tag_def rd_def Let_def split: if_splits sum.splits)
  show ?thesis
  proof (cases d)
    case None
    then have "st' = st" using run Some d
      by (auto simp: process_tag_def rd_def Let_def split: if_splits)
    then show ?thesis using pub by simp
  next
    case (Some r)
    obtain payload st1 where r: "r = (payload, st1)" by (cases r)
    have sw: "decode_switch ?ty ?tp buf st = Inr (Some (payload, st1))" using d Some r by simp
    have st': "st' = publish_and_cache ti payload now st1"
      using run \<open>tag_index (tagData st) (uint (buf ! 0)) = Some ti\<close> sw
      by (auto simp: process_tag_def rd_def Let_def split: if_splits)
    have td: "tagData st1 = tagData st" using decode_switch_tagData [OF sw] by simp
    have ne: "payload \<noteq> []"
    proof
      assume e: "payload = []"
      then have "st1 = st" using decode_switch_empty sw by simp
      then have "published st' = published st"
        using st' e by (simp add: publish_and_cache_def fprintf_stderr_def)
      then show False using pub by simp
    qed
    have b1: "ti < length (tagData st1)" using b td by simp
    note pc = publish_and_cache_nonempty [OF ne b1, of now]
    have nn: "NUL \<notin> set payload" by (rule decode_switch_no_NUL [OF sw])
    have last: "last (published st') = (?tp, payload)" using pc(1) st' td by simp
    have cached: "lastMessage (tagData st' ! ti) = strncpy payload 32" using pc(2) st' by simp
    have ts: "lastMessageTimestamp (tagData st' ! ti) = now" using pc(3) st' by simp
    have cs: "cstring (strncpy payload 32) = (if length payload < 32 then Inr payload else Inl OutOfBounds)"
      by (rule cstring_strncpy [OF nn])
    let ?c = "lastMessage (tagData st' ! ti)"
    have g: "fst (last (published st')) = ?tp" "snd (last (published st')) = payload"
      using last by simp_all
    have A: "?c = take 32 payload @ replicate (32 - length payload) NUL"
      using cached by (simp add: strncpy_def)
    have B: "length ?c = 32" unfolding A by simp
    have C: "if length payload < 32 then cstring ?c = Inr payload
             else ?c = take 32 payload \<and> cstring ?c = Inl OutOfBounds \<and>
                  (if 32 < length payload then ?c \<noteq> payload else ?c = payload)"
    proof (cases "length payload < 32")
      case True
      then show ?thesis using cs cached by simp
    next
      case False
      have t: "?c = take 32 payload" using cached False by (simp add: strncpy_def)
      have u: "cstring ?c = Inl OutOfBounds" using cs cached False by simp
      have v: "if 32 < length payload then ?c \<noteq> payload else ?c = payload"
      proof (cases "32 < length payload")
        case True
        have "length ?c = 32" by (rule B)
        then have "?c \<noteq> payload" using True by auto
        then show ?thesis using True by simp
      next
        case eq: False
        then show ?thesis using t False by simp
      qed
      show ?thesis using False t u v by simp
    qed
    show ?thesis
      unfolding \<open>tag_index (tagData st) (uint (buf ! 0)) = Some ti\<close> option.case Let_def g
      using A B ts C by blast
  qed
qed

theorem C10_cache_keeps_first_32_bytes_witness:
  "process_tag [0x01, 0x00, 0x0A] 1000 world_init
     = Inr (3, publish_and_cache 0 ''1.0'' 1000 world_init) \<and>
   published (publish_and_cache 0 ''1.0'' 1000 world_init) \<noteq> published world_init \<and>
   cstring (lastMessage (tagData (publish_and_cache 0 ''1.0'' 1000 world_init) ! 0)) = Inr ''1.0'' \<and>
   process_tag (0x4C # 0x01 # replicate 15 0) 1000 world_init
     = Inr (17, publish_and_cache 74 (''00000001'' @ replicate 120 (CHR ''0'')) 1000 world_init) \<and>
   published (publish_and_cache 74 (''00000001'' @ replicate 120 (CHR ''0'')) 1000 world_init)
     \<noteq> published world_init \<and>
   lastMessage (tagData (publish_and_cache 74 (''00000001'' @ replicate 120 (CHR ''0'')) 1000 world_init) ! 74)
     = ''00000001'' @ replicate 24 (CHR ''0'') \<and>
   cstring (lastMessage
     (tagData (publish_and_cache 74 (''00000001'' @ replicate 120 (CHR ''0'')) 1000 world_init) ! 74))
     = Inl OutOfBounds"
proof -
  let ?p = "''00000001'' @ replicate 120 (CHR ''0'')"
  let ?s1 = "publish_and_cache 0 ''1.0'' 1000 world_init"
  let ?s2 = "publish_and_cache 74 ?p 1000 world_init"
  have td: "tagData world_init = tagData_init" and p0: "published world_init = []"
    by (simp_all add: world_init_def)
  have b: "\<not> bit (0x00 :: byte) 7" by simp
  have run1: "process_tag [0x01, 0x00, 0x0A] 1000 world_init = Inr (3, ?s1)"
    unfolding process_tag_0x01 using b snprintf_examples by simp
  have pubs1: "published ?s1 = [(''temperature/indoors'', ''1.0'')]"
    by (simp add: publish_and_cache_def mqtt_publish_def Let_def td p0 tag_0x01)
  have pub1: "published ?s1 \<noteq> published world_init" unfolding pubs1 p0 by simp
  have ti1: "tag_index (tagData world_init) (uint ([0x01, 0x00, 0x0A :: byte] ! 0)) = Some 0"
    using tag_0x01(1) by (simp add: td)
  note inst1 = C10_cache_keeps_first_32_bytes [OF run1 pub1, unfolded ti1 option.case Let_def pubs1]
  have c1: "cstring (lastMessage (tagData ?s1 ! 0)) = Inr ''1.0''"
    using inst1 [THEN conjunct2, THEN conjunct2, THEN conjunct2, THEN conjunct2] by simp
  have l: "length (0x01 # replicate 15 (0 :: byte)) = 16" by simp
  have e: "concat (map bits_msb_first (0x01 # replicate 15 (0 :: byte))) = ?p"
    by code_simp
  have run2: "process_tag (0x4C # 0x01 # replicate 15 0) 1000 world_init = Inr (17, ?s2)"
    using process_tag_0x4C [OF l, of "[]" 1000] unfolding e by simp
  have pubs2: "published ?s2 = [(''all_sensor_low_battery'', ?p)]"
    by (simp add: publish_and_cache_def mqtt_publish_def Let_def td p0 tag_0x4C)
  have pub2: "published ?s2 \<noteq> published world_init" unfolding pubs2 p0 by simp
  have ti2: "tag_index (tagData world_init) (uint ((0x4C # 0x01 # replicate 15 (0 :: byte)) ! 0)) = Some 74"
    using tag_0x4C(1) by (simp add: td)
  note inst2 = C10_cache_keeps_first_32_bytes [OF run2 pub2, unfolded ti2 option.case Let_def pubs2]
  have long: "\<not> length (snd (last [(''all_sensor_low_battery'', ?p)])) < 32" by simp
  note r = inst2 [THEN conjunct2, THEN conjunct2, THEN conjunct2, THEN conjunct2,
      unfolded if_not_P [OF long]]
  have c2a: "lastMessage (tagData ?s2 ! 74) = ''00000001'' @ replicate 24 (CHR ''0'')"
    using r [THEN conjunct1] by simp
  have c2b: "cstring (lastMessage (tagData ?s2 ! 74)) = Inl OutOfBounds"
    using r [THEN conjunct2, THEN conjunct1] by simp
  show ?thesis using run1 pub1 c1 run2 pub2 c2a c2b by blast
qed

section \<open>Properties of the snapshot\<close>

lemma fresh_iff:
  "fresh now e \<longleftrightarrow> lastMessage e ! 0 \<noteq> NUL \<and> now - lastMessageTimestamp e \<le> MESSAGE_EXPIRATION_SECONDS"
  by (simp add: fresh_def MESSAGE_EXPIRATION_SECONDS_def)

lemma rev_take_Suc:
  "n < length td \<Longrightarrow> rev (take (Suc n) td) = td ! n # rev (take n td)"
  by (simp add: take_Suc_conv_app_nth)

lemma json_loop_Suc:
  "json_loop td now (Suc ti) (firstTopic, json_buffer) =
     (if fresh now (td ! ti)
      then
        (case (if firstTopic then Inr json_buffer else strcat 1024 json_buffer [CHR '','', NEWLINE]) of
           Inl f \<Rightarrow> Inl f
         | Inr jb \<Rightarrow>
             (case cstring (lastMessage (td ! ti)) of
                Inl f \<Rightarrow> Inl f
              | Inr msg \<Rightarrow>
                  (case sprintf_entry (topic (td ! ti)) msg of
                     Inl f \<Rightarrow> Inl f
                   | Inr strbuf \<Rightarrow>
                       (case strcat 1024 jb strbuf of
                          Inl f \<Rightarrow> Inl f
                        | Inr jb' \<Rightarrow> json_loop td now ti (False, jb')))))
      else json_loop td now ti (firstTopic, json_buffer))"
  by (simp add: fresh_iff)

lemma json_loop_eq:
  assumes "n \<le> length td"
  shows "json_loop td now n (ft, jb) =
           (let es = filter (fresh now) (rev (take n td))
            in if es = [] then Inr (ft, jb)
               else if list_all entry_fits es \<and> length (jb @ render_entries ft es) < 1024
               then Inr (False, jb @ render_entries ft es)
               else Inl OutOfBounds)"
  using assms
proof (induction n arbitrary: ft jb)
  case 0
  then show ?case by simp
next
  case (Suc n)
  have n: "n < length td" "n \<le> length td" using Suc.prems by simp_all
  note rt = rev_take_Suc [OF n(1)]
  let ?e = "td ! n" and ?es = "filter (fresh now) (rev (take n td))"
  show ?case
  proof (cases "fresh now ?e")
    case False
    then have "json_loop td now (Suc n) (ft, jb) = json_loop td now n (ft, jb)"
      by (simp add: json_loop_Suc del: json_loop.simps(2))
    then show ?thesis using Suc.IH [OF n(2), of ft jb] False rt by simp
  next
    case True
    let ?sep = "if ft then [] else [CHR '','', NEWLINE]"
    let ?jb2 = "jb @ ?sep @ entry_text ?e"
    have es: "filter (fresh now) (rev (take (Suc n) td)) = ?e # ?es" using True rt by simp
    have r: "jb @ render_entries ft (?e # ?es) = ?jb2 @ render_entries False ?es" by simp
    show ?thesis
    proof (cases "entry_fits ?e \<and> length ?jb2 < 1024")
      case ok: True
      then have nul: "NUL \<in> set (lastMessage ?e)" and el: "length (entry_text ?e) < 128"
        and l2: "length ?jb2 < 1024" by (simp_all add: entry_fits_def)
      have s1: "(if ft then Inr jb else strcat 1024 jb [CHR '','', NEWLINE]) = Inr (jb @ ?sep)"
        using l2 by (cases ft) (simp_all add: strcat_def)
      have s2: "cstring (lastMessage ?e) = Inr (takeWhile (\<lambda>c. c \<noteq> NUL) (lastMessage ?e))"
        using nul by (simp add: cstring_def)
      have s3: "sprintf_entry (topic ?e) (takeWhile (\<lambda>c. c \<noteq> NUL) (lastMessage ?e)) = Inr (entry_text ?e)"
        using el by (simp add: sprintf_entry_def entry_text_def Let_def)
      have s4: "strcat 1024 (jb @ ?sep) (entry_text ?e) = Inr ?jb2"
        using l2 by (cases ft) (simp_all add: strcat_def)
      have step: "json_loop td now (Suc n) (ft, jb) = json_loop td now n (False, ?jb2)"
        unfolding json_loop_Suc using True s1 s2 s3 s4 by simp
      show ?thesis
        unfolding step Suc.IH [OF n(2), of False ?jb2] es Let_def r
        using ok by simp
    next
      case bad: False
      have "json_loop td now (Suc n) (ft, jb) = Inl OutOfBounds"
        unfolding json_loop_Suc using True bad
        by (auto simp: strcat_def cstring_def sprintf_entry_def entry_text_def entry_fits_def Let_def
                 split: sum.splits)
      moreover have "\<not> (list_all entry_fits (?e # ?es) \<and>
                        length (jb @ render_entries ft (?e # ?es)) < 1024)"
        using bad unfolding r by auto
      ultimately show ?thesis unfolding es Let_def by simp
    qed
  qed
qed

lemma example_stale: "filter (fresh 1061) (tagData example_state) = []"
  by code_simp

lemma example_fresh: "filter (fresh 1060) (tagData example_state) \<noteq> []"
  by code_simp

lemma example_snapshot:
  "publish_json 1060 example_state = Inr (mqtt_publish ''all_data/json'' example_json example_state)"
  by code_simp

lemma example_no_data:
  "publish_json 1061 example_state
     = Inr (fprintf_stderr ''No recent data to publish'' example_state)"
  by code_simp

lemma publish_json_eq:
  "publish_json now st =
     (let es = filter (fresh now) (rev (tagData st))
      in if es = [] then Inr (st\<lparr>stderr_lines := stderr_lines st @ [''No recent data to publish'']\<rparr>)
         else if list_all entry_fits es \<and> length (snapshot_text es) < 1024
         then Inr (st\<lparr>published := published st @ [(''all_data/json'', snapshot_text es)]\<rparr>)
         else Inl OutOfBounds)"
proof -
  let ?es = "filter (fresh now) (rev (tagData st))"
  let ?jb0 = "[CHR ''{'', NEWLINE]"
  have l: "json_loop (tagData st) now (length (tagData st)) (True, ?jb0) =
           (if ?es = [] then Inr (True, ?jb0)
            else if list_all entry_fits ?es \<and> length (?jb0 @ render_entries True ?es) < 1024
            then Inr (False, ?jb0 @ render_entries True ?es)
            else Inl OutOfBounds)"
    using json_loop_eq [of "length (tagData st)" "tagData st" now True ?jb0] by (simp add: Let_def)
  show ?thesis
  proof (cases "?es = []")
    case True
    then show ?thesis unfolding publish_json_def l Let_def
      by (simp add: strcat_def fprintf_stderr_def)
  next
    case False
    show ?thesis
    proof (cases "list_all entry_fits ?es \<and> length (snapshot_text ?es) < 1024")
      case True
      then show ?thesis unfolding publish_json_def l Let_def using False
        by (simp add: strcat_def mqtt_publish_def snapshot_text_def)
    next
      case bad: False
      then show ?thesis unfolding publish_json_def l Let_def using False
        by (auto simp: strcat_def snapshot_text_def)
    qed
  qed
qed

subsection \<open>Claim C7: a snapshot holds the fresh observations only\<close>

text \<open>
  C7 holds wherever \<^verbatim>\<open>publish_json\<close> stays inside its arrays (\<open>publish_json_eq\<close>):
  with no fresh observation it publishes nothing and writes "No recent data to
  publish", and otherwise it publishes the entries of exactly the observations that
  have a value and are at most 60 old. The source does not stay inside its arrays in
  states it reaches. The reply below is accepted by \<^verbatim>\<open>check_receive_buffer\<close>; decoded
  at time 1000 it publishes the 128 characters of the low-battery bitmask and caches
  their first 32 without a NUL; at time 1010 that observation is the only fresh one,
  and \<^verbatim>\<open>publish_json\<close> reads the cached message past its 32 cells. The claim asks for
  a snapshot that holds this observation; the source has no defined result.
\<close>

theorem C7_low_battery_snapshot_faults:
  "check_receive_buffer low_battery_frame = Inr RECEIVE_BUFFER_OK \<and>
   (case parse_and_publish low_battery_frame 1000 world_init of
      None \<Rightarrow> False
    | Some r \<Rightarrow>
        (case r of
           Inl f \<Rightarrow> False
         | Inr s \<Rightarrow>
             published s = [(''all_sensor_low_battery'', ''00000001'' @ replicate 120 (CHR ''0''))] \<and>
             filter (fresh 1010) (tagData s) = [tagData s ! 74] \<and>
             lastMessage (tagData s ! 74) = ''00000001'' @ replicate 24 (CHR ''0'') \<and>
             publish_json 1010 s = Inl OutOfBounds))"
  by code_simp


end
